theory Spec2Isabelle
  imports Main "HOL-Library.Word" "HOL-Library.Sublist"
begin

unbundle bit_operations_syntax

section \<open>Common ground\<close>

text \<open>
  The queues of \<^verbatim>\<open>concurrent_data_structures\<close> are embedded as they run on one thread:
  an atomic variable is a plain field, a compare-and-swap succeeds exactly when the value
  it expects is the value stored, and a loop that waits for another thread is a recursive
  function in the option type, whose value \<open>None\<close> says that the call never returns.

  \<open>size_t\<close> is taken as 64 bits wide and \<open>unsigned\<close> as 32 bits wide.
\<close>

type_synonym size_t = "64 word"
type_synonym unsigned = "32 word"

text \<open>
  The places of \<^verbatim>\<open>linked_blocking_queue.h\<close> at which a value that is on its way out of
  the queue is move-constructed (copy-constructed when the element type has no move
  constructor): \<^verbatim>\<open>T e = std::move(old->val_)\<close> (line 199) and \<^verbatim>\<open>return e\<close> (line 210) in
  \<^verbatim>\<open>pop(std::unique_lock<lock_t>)\<close>, \<^verbatim>\<open>ret = std::move(pop(...))\<close> (line 296) and
  \<^verbatim>\<open>return ret\<close> (line 297) in \<^verbatim>\<open>try_pop\<close>. \<^verbatim>\<open>return pop(...)\<close> in \<^verbatim>\<open>pop()\<close> (line 311)
  returns a prvalue and constructs nothing.
\<close>

datatype move_site = Pop_Local | Pop_Return | Try_Pop_Assign | Try_Pop_Return

text \<open>
  What a call can end with other than its result. \<open>Assertion_Failed\<close> is a failed
  \<^verbatim>\<open>assert\<close> (assertions are taken as compiled in), \<open>Bad_Alloc\<close> is
  \<^verbatim>\<open>std::bad_alloc\<close>, \<open>Ctor_Throw s\<close> is an exception of the element type's constructor
  thrown at the place \<open>s\<close> and passed on to the caller, \<open>Terminate\<close> is
  \<^verbatim>\<open>std::terminate\<close>, called when an exception is about to leave a \<^verbatim>\<open>noexcept\<close> function.
  The others make visible what the C++ program leaves undefined or loses silently: a write
  or read through a null pointer (\<open>Null_Dereference\<close>), through a pointer to memory that
  was never handed out or never written (\<open>Wild_Pointer\<close>), past the end of the array
  (\<open>Out_Of_Bounds\<close>), a read or destruction of storage that holds no object
  (\<open>No_Object\<close>), and a placement new into storage whose object is still alive, which
  ends that object without its destructor (\<open>Double_Construct\<close>).
\<close>

datatype error =
    Assertion_Failed
  | Bad_Alloc
  | Ctor_Throw move_site
  | Terminate
  | Null_Dereference
  | Wild_Pointer
  | Out_Of_Bounds
  | No_Object
  | Double_Construct

text \<open>
  Raw storage for one element (\<^verbatim>\<open>std::aligned_storage_t\<close> in a slot, the \<^verbatim>\<open>val_\<close> member of a
  node): nothing constructed in it, a live value, or an object that has been moved from and
  whose destructor has not run.
\<close>

datatype 'a storage = Uninit | Constructed 'a | Moved_From

definition move_from :: "'a storage \<Rightarrow> error + 'a \<times> 'a storage" where
  "move_from st = (case st of Constructed v \<Rightarrow> Inr (v, Moved_From) | _ \<Rightarrow> Inl No_Object)"

text \<open>\<^verbatim>\<open>compare_exchange_strong(expected, desired)\<close> on an atomic that holds \<open>a\<close>: whether
  it succeeded, the value the atomic holds afterwards, and the value \<open>expected\<close> holds
  afterwards.\<close>

definition compare_exchange_strong :: "'v \<Rightarrow> 'v \<Rightarrow> 'v \<Rightarrow> bool \<times> 'v \<times> 'v" where
  "compare_exchange_strong a expected desired =
     (if a = expected then (True, desired, expected) else (False, a, a))"

section \<open>array_blocking_queue.h\<close>

subsection \<open>Slots\<close>

record 'a slot_t =
  turn :: size_t
  val :: "'a storage"

definition has_val :: "'a slot_t \<Rightarrow> bool" where
  "has_val s = (turn s AND 1 \<noteq> 0)"

text \<open>\<^verbatim>\<open>slot_t::construct\<close> and \<^verbatim>\<open>slot_t::destroy\<close>.\<close>

definition slot_construct :: "'a \<Rightarrow> 'a slot_t \<Rightarrow> error + 'a slot_t" where
  "slot_construct v s =
     (case val s of Uninit \<Rightarrow> Inr (s\<lparr>val := Constructed v\<rparr>) | _ \<Rightarrow> Inl Double_Construct)"

definition slot_destroy :: "'a slot_t \<Rightarrow> error + 'a slot_t" where
  "slot_destroy s = (case val s of Uninit \<Rightarrow> Inl No_Object | _ \<Rightarrow> Inr (s\<lparr>val := Uninit\<rparr>))"

subsection \<open>The queue\<close>

record 'a array_blocking_queue =
  capacity :: size_t
  array :: "'a slot_t list"
  head :: size_t
  tail :: size_t

text \<open>\<^verbatim>\<open>allocate\<close>: \<open>p\<close> says whether \<^verbatim>\<open>malloc\<close> returned a pointer other than null.\<close>

definition allocate :: "bool \<Rightarrow> error + unit" where
  "allocate p = (if \<not> p then Inl Bad_Alloc else Inr ())"

text \<open>\<^verbatim>\<open>construct\<close>: the loop counter \<^verbatim>\<open>auto i = 0u\<close> is an \<^verbatim>\<open>unsigned\<close>, compared with the
  \<open>size_t\<close> capacity.\<close>

partial_function (option) construct_loop ::
  "size_t \<Rightarrow> unsigned \<Rightarrow> 'a slot_t list \<Rightarrow> 'a slot_t list option" where
  [code]: "construct_loop c i arr =
     (if ucast i < c then construct_loop c (i + 1) (arr @ [\<lparr>turn = 0, val = Uninit\<rparr>])
      else Some arr)"

definition construct :: "size_t \<Rightarrow> 'a slot_t list option" where
  "construct c = construct_loop c 0 []"

definition get_idx :: "'a array_blocking_queue \<Rightarrow> size_t \<Rightarrow> size_t" where
  "get_idx q ticket = ticket AND (capacity q - 1)"

definition get_write_turn :: "'a array_blocking_queue \<Rightarrow> size_t \<Rightarrow> size_t" where
  "get_write_turn q ticket = ticket div capacity q * 2"

definition get_read_turn :: "'a array_blocking_queue \<Rightarrow> size_t \<Rightarrow> size_t" where
  "get_read_turn q ticket = ticket div capacity q * 2 + 1"

definition done_writing :: "'a array_blocking_queue \<Rightarrow> 'a slot_t \<Rightarrow> size_t \<Rightarrow> 'a slot_t" where
  "done_writing q slot write_ticket =
     (let read_turn = get_read_turn q write_ticket in slot\<lparr>turn := read_turn\<rparr>)"

definition done_reading :: "'a slot_t \<Rightarrow> 'a slot_t" where
  "done_reading slot = slot\<lparr>turn := turn slot + 1\<rparr>"

text \<open>The constructor; the second argument is the capacity, the first is \<^verbatim>\<open>malloc\<close>'s
  answer.\<close>

definition array_blocking_queue ::
  "bool \<Rightarrow> size_t \<Rightarrow> (error + 'a array_blocking_queue) option" where
  "array_blocking_queue p c =
     (if \<not> c > 1 then Some (Inl Assertion_Failed)
      else if \<not> c mod 2 = 0 then Some (Inl Assertion_Failed)
      else case allocate p of
        Inl e \<Rightarrow> Some (Inl e)
      | Inr _ \<Rightarrow>
          (case construct c of
             None \<Rightarrow> None
           | Some arr \<Rightarrow> Some (Inr \<lparr>capacity = c, array = arr, head = 0, tail = 0\<rparr>)))"

text \<open>
  The modifiers. Each returns what the call ended with and the queue after it. The element
  type's constructors and assignment are taken not to throw here.
\<close>

partial_function (option) try_emplace_loop ::
  "'a \<Rightarrow> 'a array_blocking_queue \<Rightarrow> size_t \<Rightarrow> ((error + bool) \<times> 'a array_blocking_queue) option"
where
  [code]: "try_emplace_loop v q write_ticket =
     (let i = unat (get_idx q write_ticket) in
      if \<not> i < length (array q) then Some (Inl Out_Of_Bounds, q)
      else
        let slot = array q ! i in
        if get_write_turn q write_ticket = turn slot then
          (let (ok, tail', write_ticket') =
                 compare_exchange_strong (tail q) write_ticket (write_ticket + 1) in
           if ok then
             Some (case slot_construct v slot of
                     Inl e \<Rightarrow> (Inl e, q\<lparr>tail := tail'\<rparr>)
                   | Inr slot' \<Rightarrow>
                       (Inr True,
                        q\<lparr>tail := tail', array := (array q)[i := done_writing q slot' write_ticket]\<rparr>))
           else try_emplace_loop v q write_ticket')
        else
          (let old_ticket = write_ticket; write_ticket = tail q in
           if old_ticket \<noteq> write_ticket then try_emplace_loop v q write_ticket
           else Some (Inr False, q)))"

definition try_emplace ::
  "'a \<Rightarrow> 'a array_blocking_queue \<Rightarrow> ((error + bool) \<times> 'a array_blocking_queue) option" where
  "try_emplace v q = (let write_ticket = tail q in try_emplace_loop v q write_ticket)"

text \<open>The wait of \<^verbatim>\<open>emplace\<close> and \<^verbatim>\<open>pop\<close> for their turn at slot \<open>i\<close>.\<close>

partial_function (option) wait_for_turn ::
  "'a array_blocking_queue \<Rightarrow> nat \<Rightarrow> size_t \<Rightarrow> unit option" where
  [code]: "wait_for_turn q i t = (if t \<noteq> turn (array q ! i) then wait_for_turn q i t else Some ())"

definition emplace ::
  "'a \<Rightarrow> 'a array_blocking_queue \<Rightarrow> ((error + unit) \<times> 'a array_blocking_queue) option" where
  "emplace v q0 =
     (let write_ticket = tail q0;
          q = q0\<lparr>tail := tail q0 + 1\<rparr>;
          i = unat (get_idx q write_ticket) in
      if \<not> i < length (array q) then Some (Inl Out_Of_Bounds, q)
      else
        let t = get_write_turn q write_ticket in
        case wait_for_turn q i t of
          None \<Rightarrow> None
        | Some _ \<Rightarrow>
            Some (case slot_construct v (array q ! i) of
                    Inl e \<Rightarrow> (Inl e, q)
                  | Inr slot' \<Rightarrow>
                      (Inr (), q\<lparr>array := (array q)[i := done_writing q slot' write_ticket]\<rparr>)))"

definition try_push ::
  "'a \<Rightarrow> 'a array_blocking_queue \<Rightarrow> ((error + bool) \<times> 'a array_blocking_queue) option" where
  "try_push v q = try_emplace v q"

definition push ::
  "'a \<Rightarrow> 'a array_blocking_queue \<Rightarrow> ((error + unit) \<times> 'a array_blocking_queue) option" where
  "push v q = emplace v q"

text \<open>\<^verbatim>\<open>try_pop(T& val)\<close>: \<open>Some v\<close> stands for the result \<^verbatim>\<open>true\<close> with \<open>v\<close> assigned to
  \<^verbatim>\<open>val\<close>, \<open>None\<close> for the result \<^verbatim>\<open>false\<close>.\<close>

partial_function (option) try_pop_loop ::
  "'a array_blocking_queue \<Rightarrow> size_t \<Rightarrow> ((error + 'a option) \<times> 'a array_blocking_queue) option"
where
  [code]: "try_pop_loop q read_ticket =
     (let i = unat (get_idx q read_ticket) in
      if \<not> i < length (array q) then Some (Inl Out_Of_Bounds, q)
      else
        let slot = array q ! i in
        if get_read_turn q read_ticket = turn slot then
          (let (ok, head', read_ticket') =
                 compare_exchange_strong (head q) read_ticket (read_ticket + 1) in
           if ok then
             Some (case move_from (val slot) of
                     Inl e \<Rightarrow> (Inl e, q\<lparr>head := head'\<rparr>)
                   | Inr (v, st) \<Rightarrow>
                       (case slot_destroy (slot\<lparr>val := st\<rparr>) of
                          Inl e \<Rightarrow> (Inl e, q\<lparr>head := head'\<rparr>)
                        | Inr slot' \<Rightarrow>
                            (Inr (Some v),
                             q\<lparr>head := head', array := (array q)[i := done_reading slot']\<rparr>)))
           else try_pop_loop q read_ticket')
        else
          (let old_ticket = read_ticket; read_ticket = head q in
           if read_ticket \<noteq> old_ticket then try_pop_loop q read_ticket
           else Some (Inr None, q)))"

definition try_pop ::
  "'a array_blocking_queue \<Rightarrow> ((error + 'a option) \<times> 'a array_blocking_queue) option" where
  "try_pop q = (let read_ticket = head q in try_pop_loop q read_ticket)"

definition pop ::
  "'a array_blocking_queue \<Rightarrow> ((error + 'a) \<times> 'a array_blocking_queue) option" where
  "pop q0 =
     (let read_ticket = head q0;
          q = q0\<lparr>head := head q0 + 1\<rparr>;
          i = unat (get_idx q read_ticket) in
      if \<not> i < length (array q) then Some (Inl Out_Of_Bounds, q)
      else
        let t = get_read_turn q read_ticket in
        case wait_for_turn q i t of
          None \<Rightarrow> None
        | Some _ \<Rightarrow>
            Some (let slot = array q ! i in
                  case move_from (val slot) of
                    Inl e \<Rightarrow> (Inl e, q)
                  | Inr (v, st) \<Rightarrow>
                      (case slot_destroy (slot\<lparr>val := st\<rparr>) of
                         Inl e \<Rightarrow> (Inl e, q)
                       | Inr slot' \<Rightarrow>
                           (Inr v, q\<lparr>array := (array q)[i := done_reading slot']\<rparr>))))"

subsection \<open>Runs of calls on one thread\<close>

datatype 'a call = Push 'a | Try_Push 'a | Pop | Try_Pop

datatype 'a event = Pushed 'a | Push_Refused 'a | Popped 'a | Pop_Refused

fun call_step ::
  "'a call \<Rightarrow> 'a array_blocking_queue \<Rightarrow> ((error + 'a event) \<times> 'a array_blocking_queue) option"
where
  "call_step (Push v) q =
     (case push v q of
        None \<Rightarrow> None
      | Some (Inl e, q') \<Rightarrow> Some (Inl e, q')
      | Some (Inr _, q') \<Rightarrow> Some (Inr (Pushed v), q'))"
| "call_step (Try_Push v) q =
     (case try_push v q of
        None \<Rightarrow> None
      | Some (Inl e, q') \<Rightarrow> Some (Inl e, q')
      | Some (Inr b, q') \<Rightarrow> Some (Inr (if b then Pushed v else Push_Refused v), q'))"
| "call_step Pop q =
     (case pop q of
        None \<Rightarrow> None
      | Some (Inl e, q') \<Rightarrow> Some (Inl e, q')
      | Some (Inr v, q') \<Rightarrow> Some (Inr (Popped v), q'))"
| "call_step Try_Pop q =
     (case try_pop q of
        None \<Rightarrow> None
      | Some (Inl e, q') \<Rightarrow> Some (Inl e, q')
      | Some (Inr r, q') \<Rightarrow> Some (Inr (case r of None \<Rightarrow> Pop_Refused | Some v \<Rightarrow> Popped v), q'))"

text \<open>A run stops at the first call that ends with an error, and does not return when one
  of its calls does not.\<close>

fun run ::
  "'a call list \<Rightarrow> 'a array_blocking_queue \<Rightarrow>
     ((error + 'a event list) \<times> 'a array_blocking_queue) option"
where
  "run [] q = Some (Inr [], q)"
| "run (c # cs) q =
     (case call_step c q of
        None \<Rightarrow> None
      | Some (Inl e, q') \<Rightarrow> Some (Inl e, q')
      | Some (Inr ev, q') \<Rightarrow>
          (case run cs q' of
             None \<Rightarrow> None
           | Some (Inl e, q'') \<Rightarrow> Some (Inl e, q'')
           | Some (Inr evs, q'') \<Rightarrow> Some (Inr (ev # evs), q'')))"

fun pushed :: "'a event list \<Rightarrow> 'a list" where
  "pushed [] = []"
| "pushed (Pushed v # evs) = v # pushed evs"
| "pushed (_ # evs) = pushed evs"

fun popped :: "'a event list \<Rightarrow> 'a list" where
  "popped [] = []"
| "popped (Popped v # evs) = v # popped evs"
| "popped (_ # evs) = popped evs"

section \<open>spinlock.h\<close>

text \<open>The lock is its flag \<^verbatim>\<open>lock_\<close>.\<close>

type_synonym spinlock = bool

text \<open>\<^verbatim>\<open>exchange(desired)\<close> on an atomic that holds \<open>a\<close>: the value it held and the value it
  holds afterwards.\<close>

definition exchange :: "'v \<Rightarrow> 'v \<Rightarrow> 'v \<times> 'v" where
  "exchange a desired = (a, desired)"

partial_function (option) spin_while_locked :: "spinlock \<Rightarrow> unit option" where
  [code]: "spin_while_locked l = (if l then spin_while_locked l else Some ())"

partial_function (option) spinlock_lock :: "spinlock \<Rightarrow> spinlock option" where
  [code]: "spinlock_lock l =
     (let (old, l') = exchange l True in
      if \<not> old then Some l'
      else case spin_while_locked l' of None \<Rightarrow> None | Some _ \<Rightarrow> spinlock_lock l')"

definition try_lock :: "spinlock \<Rightarrow> bool \<times> spinlock" where
  "try_lock l =
     (if \<not> l then (let (old, l') = exchange l True in (\<not> old, l')) else (False, l))"

definition spinlock_unlock :: "spinlock \<Rightarrow> spinlock" where
  "spinlock_unlock l = False"

section \<open>linked_blocking_queue.h\<close>

subsection \<open>Nodes, pointers and memory\<close>

text \<open>A pointer to a node is an address or null (\<open>None\<close>). The fields \<^verbatim>\<open>val_\<close> and
  \<^verbatim>\<open>next_\<close> of a node are \<open>node_val\<close> and \<open>node_next\<close>.\<close>

type_synonym ptr = "nat option"

record 'a node =
  node_val :: "'a storage"
  node_next :: ptr

record queue_end =
  lock :: spinlock
  ptr :: ptr

text \<open>
  The queue together with the memory its nodes live in: \<open>heap\<close> holds the nodes that have
  been written, \<open>brk\<close> is the address \<^verbatim>\<open>malloc\<close> hands out next (every address below it
  has been handed out), \<open>avail\<close> is the number of nodes \<^verbatim>\<open>malloc\<close> can still hand out
  before it returns null.
\<close>

record 'a linked_blocking_queue =
  free_list :: ptr
  front_end :: queue_end
  back_end :: queue_end
  heap :: "nat \<rightharpoonup> 'a node"
  brk :: nat
  avail :: nat

definition malloc :: "'a linked_blocking_queue \<Rightarrow> ptr \<times> 'a linked_blocking_queue" where
  "malloc q =
     (if avail q = 0 then (None, q)
      else (Some (brk q), q\<lparr>brk := brk q + 1, avail := avail q - 1\<rparr>))"

text \<open>Reading the node a pointer refers to.\<close>

definition deref :: "'a linked_blocking_queue \<Rightarrow> ptr \<Rightarrow> error + 'a node" where
  "deref q p =
     (case p of
        None \<Rightarrow> Inl Null_Dereference
      | Some a \<Rightarrow> (case heap q a of None \<Rightarrow> Inl Wild_Pointer | Some n \<Rightarrow> Inr n))"

text \<open>\<^verbatim>\<open>std::memset(p, 0, sizeof(node))\<close>: the node holds no object and its \<^verbatim>\<open>next_\<close> is
  null afterwards.\<close>

definition memset_zero ::
  "ptr \<Rightarrow> 'a linked_blocking_queue \<Rightarrow> (error + unit) \<times> 'a linked_blocking_queue" where
  "memset_zero p q =
     (case p of
        None \<Rightarrow> (Inl Null_Dereference, q)
      | Some a \<Rightarrow>
          if a < brk q
          then (Inr (), q\<lparr>heap := (heap q)(a \<mapsto> \<lparr>node_val = Uninit, node_next = None\<rparr>)\<rparr>)
          else (Inl Wild_Pointer, q))"

text \<open>\<^verbatim>\<open>compare_exchange_weak\<close>, in a run where it does not fail spuriously.\<close>

definition compare_exchange_weak :: "'v \<Rightarrow> 'v \<Rightarrow> 'v \<Rightarrow> bool \<times> 'v \<times> 'v" where
  "compare_exchange_weak a expected desired = compare_exchange_strong a expected desired"

subsection \<open>The free list\<close>

text \<open>\<^verbatim>\<open>free_node\<close>: the loop works on \<^verbatim>\<open>p->next_\<close> as the expected value.\<close>

partial_function (option) free_node_loop ::
  "nat \<Rightarrow> 'a linked_blocking_queue \<Rightarrow> ((error + unit) \<times> 'a linked_blocking_queue) option"
where
  [code]: "free_node_loop a q =
     (case heap q a of
        None \<Rightarrow> Some (Inl Wild_Pointer, q)
      | Some n \<Rightarrow>
          let (ok, free_list', expected') =
                compare_exchange_weak (free_list q) (node_next n) (Some a) in
          if ok then Some (Inr (), q\<lparr>free_list := free_list'\<rparr>)
          else free_node_loop a (q\<lparr>heap := (heap q)(a \<mapsto> n\<lparr>node_next := expected'\<rparr>)\<rparr>))"

definition free_node ::
  "ptr \<Rightarrow> 'a linked_blocking_queue \<Rightarrow> ((error + unit) \<times> 'a linked_blocking_queue) option"
where
  "free_node p q =
     (case p of
        None \<Rightarrow> Some (Inl Null_Dereference, q)
      | Some a \<Rightarrow>
          (case heap q a of
             None \<Rightarrow> Some (Inl Wild_Pointer, q)
           | Some n \<Rightarrow>
               free_node_loop a (q\<lparr>heap := (heap q)(a \<mapsto> n\<lparr>node_next := free_list q\<rparr>)\<rparr>)))"

partial_function (option) alloc_from_free_list_loop ::
  "ptr \<Rightarrow> 'a linked_blocking_queue \<Rightarrow> ((error + ptr) \<times> 'a linked_blocking_queue) option"
where
  [code]: "alloc_from_free_list_loop alloc q =
     (if alloc = None then Some (Inr alloc, q)
      else case deref q alloc of
        Inl e \<Rightarrow> Some (Inl e, q)
      | Inr n \<Rightarrow>
          let (ok, free_list', alloc') =
                compare_exchange_weak (free_list q) alloc (node_next n) in
          if ok then Some (Inr alloc, q\<lparr>free_list := free_list'\<rparr>)
          else alloc_from_free_list_loop alloc' q)"

definition alloc_from_free_list ::
  "'a linked_blocking_queue \<Rightarrow> ((error + ptr) \<times> 'a linked_blocking_queue) option" where
  "alloc_from_free_list q = (let alloc = free_list q in alloc_from_free_list_loop alloc q)"

definition alloc_from_allocator ::
  "'a linked_blocking_queue \<Rightarrow> ptr \<times> 'a linked_blocking_queue" where
  "alloc_from_allocator q = malloc q"

definition alloc_node ::
  "'a linked_blocking_queue \<Rightarrow> ((error + ptr) \<times> 'a linked_blocking_queue) option" where
  "alloc_node q =
     (case alloc_from_free_list q of
        None \<Rightarrow> None
      | Some (Inl e, q1) \<Rightarrow> Some (Inl e, q1)
      | Some (Inr new_node, q1) \<Rightarrow>
          let (new_node, q2) =
                (if new_node = None then alloc_from_allocator q1 else (new_node, q1)) in
          Some (case memset_zero new_node q2 of
                  (Inl e, q3) \<Rightarrow> (Inl e, q3)
                | (Inr _, q3) \<Rightarrow> (Inr new_node, q3)))"

subsection \<open>The queue\<close>

text \<open>\<^verbatim>\<open>new (tail) node(value)\<close>: the node's constructor sets \<^verbatim>\<open>next_\<close> to null.\<close>

definition construct_node ::
  "ptr \<Rightarrow> 'a \<Rightarrow> 'a linked_blocking_queue \<Rightarrow> (error + unit) \<times> 'a linked_blocking_queue" where
  "construct_node p v q =
     (case p of
        None \<Rightarrow> (Inl Null_Dereference, q)
      | Some a \<Rightarrow>
          if \<not> a < brk q then (Inl Wild_Pointer, q)
          else if (case heap q a of None \<Rightarrow> False | Some n \<Rightarrow> node_val n \<noteq> Uninit)
          then (Inl Double_Construct, q)
          else (Inr (), q\<lparr>heap := (heap q)(a \<mapsto> \<lparr>node_val = Constructed v, node_next = None\<rparr>)\<rparr>))"

text \<open>
  \<^verbatim>\<open>insert\<close>. The copy or move of the value into the node is taken not to throw, and
  \<^verbatim>\<open>cv_.notify_one()\<close> changes nothing, no thread waiting.
\<close>

definition lbq_insert ::
  "'a \<Rightarrow> 'a linked_blocking_queue \<Rightarrow> ((error + unit) \<times> 'a linked_blocking_queue) option" where
  "lbq_insert v q =
     (case alloc_node q of
        None \<Rightarrow> None
      | Some (Inl e, q1) \<Rightarrow> Some (Inl e, q1)
      | Some (Inr new_node, q1) \<Rightarrow>
          (case spinlock_lock (lock (back_end q1)) of
             None \<Rightarrow> None
           | Some l \<Rightarrow>
               Some (let q2 = q1\<lparr>back_end := (back_end q1)\<lparr>lock := l\<rparr>\<rparr>;
                         tail = ptr (back_end q2) in
                     case construct_node tail v q2 of
                       (Inl e, q3) \<Rightarrow> (Inl e, q3)
                     | (Inr _, q3) \<Rightarrow>
                         (case deref q3 tail of
                            Inl e \<Rightarrow> (Inl e, q3)
                          | Inr n \<Rightarrow>
                              (case tail of
                                 None \<Rightarrow> (Inl Null_Dereference, q3)
                               | Some a \<Rightarrow>
                                   let q4 = q3\<lparr>heap := (heap q3)(a \<mapsto> n\<lparr>node_next := new_node\<rparr>)\<rparr>;
                                       q5 = q4\<lparr>back_end := (back_end q4)\<lparr>ptr := new_node\<rparr>\<rparr>;
                                       q6 = q5\<lparr>back_end := (back_end q5)\<lparr>lock := spinlock_unlock (lock (back_end q5))\<rparr>\<rparr>
                                   in (Inr (), q6))))))"

definition lbq_empty :: "'a linked_blocking_queue \<Rightarrow> error + bool" where
  "lbq_empty q =
     (case deref q (ptr (front_end q)) of Inl e \<Rightarrow> Inl e | Inr n \<Rightarrow> Inr (node_next n = None))"

text \<open>
  What the queue uses of its element type \<^verbatim>\<open>T\<close>: the two traits in the \<^verbatim>\<open>noexcept\<close>
  specifier of \<^verbatim>\<open>pop(std::unique_lock<lock_t>)\<close>, and for which values the constructor that
  moves a value throws, place by place (never, at a place where the compiler elides the
  move). A type can have a \<^verbatim>\<open>noexcept\<close> copy constructor and a move constructor that
  throws: the fields are independent. A constructor that throws is taken to leave its
  argument as it was.
\<close>

record 'a element_type =
  nothrow_copy_constructible :: bool
  nothrow_move_constructible :: bool
  move_throws :: "move_site \<Rightarrow> 'a \<Rightarrow> bool"

text \<open>
  The \<^verbatim>\<open>noexcept\<close> specifier of \<^verbatim>\<open>pop(std::unique_lock<lock_t>)\<close> (lines 187 and 188), and
  what becomes of an exception of the element's constructor in a function whose
  \<^verbatim>\<open>noexcept\<close> specifier is \<open>nx\<close>.
\<close>

definition pop_noexcept :: "'a element_type \<Rightarrow> bool" where
  "pop_noexcept T = (nothrow_copy_constructible T \<or> nothrow_move_constructible T)"

definition throw_from :: "bool \<Rightarrow> move_site \<Rightarrow> error" where
  "throw_from nx s = (if nx then Terminate else Ctor_Throw s)"

text \<open>
  \<^verbatim>\<open>pop(std::unique_lock<lock_t> front_lk)\<close>, entered with the lock of the front end held.
  When an exception of line 199 leaves the function, the destructor of \<^verbatim>\<open>front_lk\<close>
  releases the lock; when the function is \<^verbatim>\<open>noexcept\<close>, the program ends where it is. An
  exception of \<^verbatim>\<open>return e\<close> comes after the node has been detached and given to the free
  list: the local \<^verbatim>\<open>e\<close> is destroyed and the value is in the queue no more.
\<close>

definition pop_locked ::
  "'a element_type \<Rightarrow> 'a linked_blocking_queue \<Rightarrow>
     ((error + 'a) \<times> 'a linked_blocking_queue) option" where
  "pop_locked T q =
     (case lbq_empty q of
        Inl e \<Rightarrow> Some (Inl e, q)
      | Inr True \<Rightarrow> Some (Inl Assertion_Failed, q)
      | Inr False \<Rightarrow>
          (let old = ptr (front_end q) in
           case old of
             None \<Rightarrow> Some (Inl Null_Dereference, q)
           | Some a \<Rightarrow>
               (case heap q a of
                  None \<Rightarrow> Some (Inl Wild_Pointer, q)
                | Some n \<Rightarrow>
                    (case move_from (node_val n) of
                       Inl e \<Rightarrow> Some (Inl e, q)
                     | Inr (e, st) \<Rightarrow>
                         if move_throws T Pop_Local e
                         then Some (if pop_noexcept T then (Inl Terminate, q)
                                    else (Inl (Ctor_Throw Pop_Local),
                                          q\<lparr>front_end := (front_end q)\<lparr>lock := spinlock_unlock (lock (front_end q))\<rparr>\<rparr>))
                         else
                           let q1 = q\<lparr>heap := (heap q)(a \<mapsto> n\<lparr>node_val := st\<rparr>)\<rparr>;
                               q2 = q1\<lparr>front_end := (front_end q1)\<lparr>ptr := node_next n\<rparr>\<rparr>;
                               q3 = q2\<lparr>front_end := (front_end q2)\<lparr>lock := spinlock_unlock (lock (front_end q2))\<rparr>\<rparr>
                           in case free_node old q3 of
                                None \<Rightarrow> None
                              | Some (Inl x, q4) \<Rightarrow> Some (Inl x, q4)
                              | Some (Inr _, q4) \<Rightarrow>
                                  Some (if move_throws T Pop_Return e
                                        then Inl (throw_from (pop_noexcept T) Pop_Return)
                                        else Inr e, q4)))))"

text \<open>The constructor, in a memory with nothing handed out yet and \<open>n\<close> nodes to hand
  out.\<close>

definition linked_blocking_queue ::
  "nat \<Rightarrow> ((error + unit) \<times> 'a linked_blocking_queue) option" where
  "linked_blocking_queue n =
     (let q = \<lparr>free_list = None, front_end = \<lparr>lock = False, ptr = None\<rparr>,
                back_end = \<lparr>lock = False, ptr = None\<rparr>, heap = Map.empty, brk = 0, avail = n\<rparr> in
      case alloc_node q of
        None \<Rightarrow> None
      | Some (Inl e, q1) \<Rightarrow> Some (Inl e, q1)
      | Some (Inr p, q1) \<Rightarrow>
          Some (Inr (), q1\<lparr>front_end := (front_end q1)\<lparr>ptr := p\<rparr>, back_end := (back_end q1)\<lparr>ptr := p\<rparr>\<rparr>))"

definition lbq_push ::
  "'a \<Rightarrow> 'a linked_blocking_queue \<Rightarrow> ((error + unit) \<times> 'a linked_blocking_queue) option" where
  "lbq_push v q = lbq_insert v q"

text \<open>
  \<^verbatim>\<open>try_pop\<close>: \<open>None\<close> is the empty \<^verbatim>\<open>std::optional\<close>. The value \<^verbatim>\<open>pop\<close> returned is moved
  into \<^verbatim>\<open>ret\<close>, and \<^verbatim>\<open>ret\<close> is moved to the caller, after \<^verbatim>\<open>pop\<close> has detached the node:
  an exception there destroys the value. \<^verbatim>\<open>try_pop\<close> is not \<^verbatim>\<open>noexcept\<close>; an exception
  ends the program only if it leaves a constructor that is \<^verbatim>\<open>noexcept\<close> itself.
\<close>

definition lbq_try_pop ::
  "'a element_type \<Rightarrow> 'a linked_blocking_queue \<Rightarrow>
     ((error + 'a option) \<times> 'a linked_blocking_queue) option" where
  "lbq_try_pop T q =
     (case spinlock_lock (lock (front_end q)) of
        None \<Rightarrow> None
      | Some l \<Rightarrow>
          (let q1 = q\<lparr>front_end := (front_end q)\<lparr>lock := l\<rparr>\<rparr> in
           case lbq_empty q1 of
             Inl e \<Rightarrow> Some (Inl e, q1)
           | Inr True \<Rightarrow>
               Some (Inr None, q1\<lparr>front_end := (front_end q1)\<lparr>lock := spinlock_unlock (lock (front_end q1))\<rparr>\<rparr>)
           | Inr False \<Rightarrow>
               (case pop_locked T q1 of
                  None \<Rightarrow> None
                | Some (Inl e, q2) \<Rightarrow> Some (Inl e, q2)
                | Some (Inr v, q2) \<Rightarrow>
                    Some (if move_throws T Try_Pop_Assign v
                          then Inl (throw_from (nothrow_move_constructible T) Try_Pop_Assign)
                          else if move_throws T Try_Pop_Return v
                          then Inl (throw_from (nothrow_move_constructible T) Try_Pop_Return)
                          else Inr (Some v), q2))))"

text \<open>\<^verbatim>\<open>cv_.wait(front_lk, [&]() { return !empty(); })\<close>: no other thread changes the queue
  while this one waits.\<close>

partial_function (option) cv_wait :: "'a linked_blocking_queue \<Rightarrow> (error + unit) option" where
  [code]: "cv_wait q =
     (case lbq_empty q of
        Inl e \<Rightarrow> Some (Inl e)
      | Inr b \<Rightarrow> if \<not> \<not> b then cv_wait q else Some (Inr ()))"

definition lbq_pop ::
  "'a element_type \<Rightarrow> 'a linked_blocking_queue \<Rightarrow>
     ((error + 'a) \<times> 'a linked_blocking_queue) option" where
  "lbq_pop T q =
     (case spinlock_lock (lock (front_end q)) of
        None \<Rightarrow> None
      | Some l \<Rightarrow>
          (let q1 = q\<lparr>front_end := (front_end q)\<lparr>lock := l\<rparr>\<rparr> in
           case cv_wait q1 of
             None \<Rightarrow> None
           | Some (Inl e) \<Rightarrow> Some (Inl e, q1)
           | Some (Inr _) \<Rightarrow> pop_locked T q1))"

subsection \<open>Runs of calls on one thread\<close>

datatype 'a lbq_call = LPush 'a | LPop | LTry_Pop | LEmpty

text \<open>What a call gave its caller. An exception of the element type's constructor in
  \<^verbatim>\<open>pop\<close> or \<^verbatim>\<open>try_pop\<close> reaches the caller, who can go on using the queue: it is an
  event of the run (\<open>LPop_Threw s\<close>, thrown at the place \<open>s\<close>). Every other error ends the
  run, \<open>Terminate\<close> too.\<close>

datatype 'a lbq_event =
  LPushed 'a | LPopped 'a | LPop_Refused | LPop_Threw move_site | LEmpty_Is bool

fun lbq_step ::
  "'a element_type \<Rightarrow> 'a lbq_call \<Rightarrow> 'a linked_blocking_queue \<Rightarrow>
     ((error + 'a lbq_event) \<times> 'a linked_blocking_queue) option"
where
  "lbq_step T (LPush v) q =
     (case lbq_push v q of
        None \<Rightarrow> None
      | Some (Inl e, q') \<Rightarrow> Some (Inl e, q')
      | Some (Inr _, q') \<Rightarrow> Some (Inr (LPushed v), q'))"
| "lbq_step T LPop q =
     (case lbq_pop T q of
        None \<Rightarrow> None
      | Some (Inl e, q') \<Rightarrow>
          Some (case e of Ctor_Throw s \<Rightarrow> Inr (LPop_Threw s) | _ \<Rightarrow> Inl e, q')
      | Some (Inr v, q') \<Rightarrow> Some (Inr (LPopped v), q'))"
| "lbq_step T LTry_Pop q =
     (case lbq_try_pop T q of
        None \<Rightarrow> None
      | Some (Inl e, q') \<Rightarrow>
          Some (case e of Ctor_Throw s \<Rightarrow> Inr (LPop_Threw s) | _ \<Rightarrow> Inl e, q')
      | Some (Inr r, q') \<Rightarrow>
          Some (Inr (case r of None \<Rightarrow> LPop_Refused | Some v \<Rightarrow> LPopped v), q'))"
| "lbq_step T LEmpty q =
     (case lbq_empty q of Inl e \<Rightarrow> Some (Inl e, q) | Inr b \<Rightarrow> Some (Inr (LEmpty_Is b), q))"

fun lbq_run ::
  "'a element_type \<Rightarrow> 'a lbq_call list \<Rightarrow> 'a linked_blocking_queue \<Rightarrow>
     ((error + 'a lbq_event list) \<times> 'a linked_blocking_queue) option"
where
  "lbq_run T [] q = Some (Inr [], q)"
| "lbq_run T (c # cs) q =
     (case lbq_step T c q of
        None \<Rightarrow> None
      | Some (Inl e, q') \<Rightarrow> Some (Inl e, q')
      | Some (Inr ev, q') \<Rightarrow>
          (case lbq_run T cs q' of
             None \<Rightarrow> None
           | Some (Inl e, q'') \<Rightarrow> Some (Inl e, q'')
           | Some (Inr evs, q'') \<Rightarrow> Some (Inr (ev # evs), q'')))"

fun lbq_pushed :: "'a lbq_event list \<Rightarrow> 'a list" where
  "lbq_pushed [] = []"
| "lbq_pushed (LPushed v # evs) = v # lbq_pushed evs"
| "lbq_pushed (_ # evs) = lbq_pushed evs"

fun lbq_popped :: "'a lbq_event list \<Rightarrow> 'a list" where
  "lbq_popped [] = []"
| "lbq_popped (LPopped v # evs) = v # lbq_popped evs"
| "lbq_popped (_ # evs) = lbq_popped evs"

section \<open>Notions for the proofs\<close>

subsection \<open>The ring of slots\<close>

text \<open>The capacities the queue is meant for: the powers of two above 1.\<close>

definition valid_capacity :: "size_t \<Rightarrow> bool" where
  "valid_capacity c = (\<exists>n \<in> {1..<64}. c = 2 ^ n)"

text \<open>
  Tickets counted in \<open>nat\<close>, beyond the 64 bits of \<open>size_t\<close>: ticket \<open>n\<close> is the word
  \<open>of_nat n\<close>. \<open>read_turn_of C n\<close> and \<open>write_turn_of C n\<close> are the read and write turns the
  code computes for it; \<open>free_turn_of C n\<close> is the turn its slot has when the ticket before
  it on this slot, \<open>n - C\<close>, has been read (0 when there is none).
\<close>

definition read_turn_of :: "nat \<Rightarrow> nat \<Rightarrow> size_t" where
  "read_turn_of C n = of_nat (2 * ((n mod 2 ^ 64) div C) + 1)"

definition write_turn_of :: "nat \<Rightarrow> nat \<Rightarrow> size_t" where
  "write_turn_of C n = of_nat (2 * ((n mod 2 ^ 64) div C))"

definition free_turn_of :: "nat \<Rightarrow> nat \<Rightarrow> size_t" where
  "free_turn_of C n = (if n < C then 0 else read_turn_of C (n - C) + 1)"

text \<open>
  \<open>abq_at q N xs\<close>: \<open>N\<close> values have been popped, the queue holds the values \<open>xs\<close>, oldest
  first, which are those of the tickets \<open>N\<close>, \<open>N + 1\<close>, ...; the slot of such a ticket
  carries its read turn and its value, every other slot is empty and carries the turn at
  which it is free for its next ticket.
\<close>

definition slot_ok :: "nat \<Rightarrow> nat \<Rightarrow> 'a list \<Rightarrow> nat \<Rightarrow> 'a slot_t \<Rightarrow> bool" where
  "slot_ok C N xs j s =
     (if j < length xs
      then turn s = read_turn_of C (N + j) \<and> val s = Constructed (xs ! j)
      else turn s = free_turn_of C (N + j) \<and> val s = Uninit)"

definition abq_at :: "'a array_blocking_queue \<Rightarrow> nat \<Rightarrow> 'a list \<Rightarrow> bool" where
  "abq_at q N xs \<longleftrightarrow>
     valid_capacity (capacity q) \<and>
     length (array q) = unat (capacity q) \<and>
     head q = of_nat N \<and> tail q = of_nat (N + length xs) \<and>
     length xs \<le> unat (capacity q) \<and>
     (\<forall>j < unat (capacity q).
        slot_ok (unat (capacity q)) N xs j (array q ! ((N + j) mod unat (capacity q))))"

definition after_push :: "'a array_blocking_queue \<Rightarrow> 'a \<Rightarrow> 'a array_blocking_queue" where
  "after_push q v =
     q\<lparr>tail := tail q + 1,
       array := (array q)[unat (get_idx q (tail q)) :=
                  \<lparr>turn = get_read_turn q (tail q), val = Constructed v\<rparr>]\<rparr>"

definition after_pop :: "'a array_blocking_queue \<Rightarrow> 'a array_blocking_queue" where
  "after_pop q =
     q\<lparr>head := head q + 1,
       array := (array q)[unat (get_idx q (head q)) :=
                  \<lparr>turn = get_read_turn q (head q) + 1, val = Uninit\<rparr>]\<rparr>"

definition fresh :: "size_t \<Rightarrow> 'a array_blocking_queue" where
  "fresh c = \<lparr>capacity = c, array = replicate (unat c) \<lparr>turn = 0, val = Uninit\<rparr>,
              head = 0, tail = 0\<rparr>"

fun is_push :: "'a call \<Rightarrow> bool" where
  "is_push (Push v) = True"
| "is_push (Try_Push v) = True"
| "is_push _ = False"

fun pushed_value :: "'a call \<Rightarrow> 'a" where
  "pushed_value (Push v) = v"
| "pushed_value (Try_Push v) = v"


definition alternate_events :: "'a list \<Rightarrow> 'a event list" where
  "alternate_events vs = concat (map (\<lambda>v. [Pushed v, Popped v]) vs)"

text \<open>\<open>can_push C N len\<close>: with \<open>N\<close> values popped and \<open>len\<close> values held, the slot of the next
  ticket is free and at the turn the code waits for.\<close>

definition can_push :: "nat \<Rightarrow> nat \<Rightarrow> nat \<Rightarrow> bool" where
  "can_push C N len \<longleftrightarrow> len < C \<and> free_turn_of C (N + len) = write_turn_of C (N + len)"

subsection \<open>The shape of the unbounded queue\<close>

text \<open>\<open>path h p as q\<close>: following \<^verbatim>\<open>next_\<close> from \<open>p\<close> visits the nodes at the addresses \<open>as\<close>,
  in this order, and arrives at \<open>q\<close>.\<close>

fun path :: "(nat \<rightharpoonup> 'a node) \<Rightarrow> ptr \<Rightarrow> nat list \<Rightarrow> ptr \<Rightarrow> bool" where
  "path h p [] q = (p = q)"
| "path h p (a # as) q =
     (p = Some a \<and> (case h a of None \<Rightarrow> False | Some n \<Rightarrow> path h (node_next n) as q))"

text \<open>
  \<open>lbq_shape q xs as b fs\<close>: the queue \<open>q\<close> holds the values \<open>xs\<close>, oldest first, in the nodes
  at \<open>as\<close>, which lead from \<^verbatim>\<open>front_\<close> to the node \<open>b\<close> that \<^verbatim>\<open>back_\<close> refers to; \<open>b\<close> is zeroed
  memory; the free list consists of the nodes at \<open>fs\<close>; all these nodes are distinct and
  have been handed out by \<^verbatim>\<open>malloc\<close>; neither lock is held.
\<close>

definition lbq_shape ::
  "'a linked_blocking_queue \<Rightarrow> 'a list \<Rightarrow> nat list \<Rightarrow> nat \<Rightarrow> nat list \<Rightarrow> bool" where
  "lbq_shape q xs as b fs \<longleftrightarrow>
     ptr (back_end q) = Some b \<and>
     path (heap q) (ptr (front_end q)) as (Some b) \<and>
     heap q b = Some \<lparr>node_val = Uninit, node_next = None\<rparr> \<and>
     map (\<lambda>a. map_option node_val (heap q a)) as = map (\<lambda>x. Some (Constructed x)) xs \<and>
     path (heap q) (free_list q) fs None \<and>
     distinct (as @ b # fs) \<and>
     list_all (\<lambda>a. a < brk q) (as @ b # fs) \<and>
     \<not> lock (front_end q) \<and> \<not> lock (back_end q)"

definition lbq_inv :: "'a linked_blocking_queue \<Rightarrow> 'a list \<Rightarrow> bool" where
  "lbq_inv q xs \<longleftrightarrow> (\<exists>as b fs. lbq_shape q xs as b fs)"

abbreviation (input) zero_node :: "'a node" where
  "zero_node \<equiv> \<lparr>node_val = Uninit, node_next = None\<rparr>"

definition after_lbq_pop :: "'a linked_blocking_queue \<Rightarrow> 'a linked_blocking_queue" where
  "after_lbq_pop q =
     (case ptr (front_end q) of
        None \<Rightarrow> q
      | Some a \<Rightarrow>
          (case heap q a of
             None \<Rightarrow> q
           | Some n \<Rightarrow>
               q\<lparr>heap := (heap q)(a \<mapsto> \<lparr>node_val = Moved_From, node_next = free_list q\<rparr>),
                 front_end := \<lparr>lock = False, ptr = node_next n\<rparr>,
                 free_list := Some a\<rparr>))"

text \<open>
  What \<^verbatim>\<open>pop\<close> and \<^verbatim>\<open>try_pop\<close> give on a queue whose front value is \<open>x\<close>, neither lock
  held.
\<close>

definition pop_gives ::
  "'a element_type \<Rightarrow> 'a \<Rightarrow> 'a linked_blocking_queue \<Rightarrow>
     (error + 'a) \<times> 'a linked_blocking_queue" where
  "pop_gives T x q =
     (if move_throws T Pop_Local x
      then (if pop_noexcept T
            then (Inl Terminate, q\<lparr>front_end := (front_end q)\<lparr>lock := True\<rparr>\<rparr>)
            else (Inl (Ctor_Throw Pop_Local), q))
      else (if move_throws T Pop_Return x
            then Inl (throw_from (pop_noexcept T) Pop_Return) else Inr x, after_lbq_pop q))"

definition try_pop_gives ::
  "'a element_type \<Rightarrow> 'a \<Rightarrow> 'a linked_blocking_queue \<Rightarrow>
     (error + 'a option) \<times> 'a linked_blocking_queue" where
  "try_pop_gives T x q =
     (case pop_gives T x q of
        (Inl e, q') \<Rightarrow> (Inl e, q')
      | (Inr v, q') \<Rightarrow>
          (if move_throws T Try_Pop_Assign v
           then Inl (throw_from (nothrow_move_constructible T) Try_Pop_Assign)
           else if move_throws T Try_Pop_Return v
           then Inl (throw_from (nothrow_move_constructible T) Try_Pop_Return)
           else Inr (Some v), q'))"

text \<open>No move of \<open>v\<close> in \<^verbatim>\<open>pop\<close>, and none in \<^verbatim>\<open>try_pop\<close>, throws.\<close>

definition pop_moves :: "'a element_type \<Rightarrow> 'a \<Rightarrow> bool" where
  "pop_moves T v \<longleftrightarrow> \<not> move_throws T Pop_Local v \<and> \<not> move_throws T Pop_Return v"

definition try_pop_moves :: "'a element_type \<Rightarrow> 'a \<Rightarrow> bool" where
  "try_pop_moves T v \<longleftrightarrow>
     pop_moves T v \<and> \<not> move_throws T Try_Pop_Assign v \<and> \<not> move_throws T Try_Pop_Return v"

text \<open>An element type none of whose constructors throws, such as \<^verbatim>\<open>int\<close>.\<close>

definition nothrow_type :: "'a element_type" where
  "nothrow_type =
     \<lparr>nothrow_copy_constructible = True, nothrow_move_constructible = True,
      move_throws = (\<lambda>_ _. False)\<rparr>"

text \<open>
  An element type whose copy constructor is \<^verbatim>\<open>noexcept\<close> and whose move constructor
  throws whenever it is called, and an element type with no \<^verbatim>\<open>noexcept\<close> constructor whose
  move constructor throws at one place.
\<close>

definition copy_noexcept_move_throws :: "'a element_type" where
  "copy_noexcept_move_throws =
     \<lparr>nothrow_copy_constructible = True, nothrow_move_constructible = False,
      move_throws = (\<lambda>_ _. True)\<rparr>"

definition throws_at :: "move_site \<Rightarrow> 'a element_type" where
  "throws_at s =
     \<lparr>nothrow_copy_constructible = False, nothrow_move_constructible = False,
      move_throws = (\<lambda>s' _. s' = s)\<rparr>"

text \<open>
  The events after which the queue holds what it held, or has handed its front value to
  the caller: all but an exception thrown after the node was detached, with which the
  value is lost.
\<close>

fun keeps_value :: "'a lbq_event \<Rightarrow> bool" where
  "keeps_value (LPop_Threw s) = (s = Pop_Local)"
| "keeps_value _ = True"

definition lbq_fresh :: "nat \<Rightarrow> 'a linked_blocking_queue" where
  "lbq_fresh n =
     \<lparr>free_list = None, front_end = \<lparr>lock = False, ptr = Some 0\<rparr>,
      back_end = \<lparr>lock = False, ptr = Some 0\<rparr>,
      heap = [0 \<mapsto> \<lparr>node_val = Uninit, node_next = None\<rparr>], brk = 1, avail = n - 1\<rparr>"


definition lbq_alternate_events :: "'a list \<Rightarrow> 'a lbq_event list" where
  "lbq_alternate_events vs = concat (map (\<lambda>v. [LPushed v, LPopped v]) vs)"

text \<open>The queue as constructed after \<^verbatim>\<open>push(5)\<close>, and after its value has been taken out.\<close>

definition queue_of_5 :: "nat linked_blocking_queue" where
  "queue_of_5 =
     \<lparr>free_list = None, front_end = \<lparr>lock = False, ptr = Some 0\<rparr>,
      back_end = \<lparr>lock = False, ptr = Some 1\<rparr>,
      heap = [0 \<mapsto> \<lparr>node_val = Constructed 5, node_next = Some 1\<rparr>,
              1 \<mapsto> \<lparr>node_val = Uninit, node_next = None\<rparr>],
      brk = 2, avail = 0\<rparr>"

definition queue_of_5_popped :: "nat linked_blocking_queue" where
  "queue_of_5_popped =
     \<lparr>free_list = Some 0, front_end = \<lparr>lock = False, ptr = Some 1\<rparr>,
      back_end = \<lparr>lock = False, ptr = Some 1\<rparr>,
      heap = [0 \<mapsto> \<lparr>node_val = Moved_From, node_next = None\<rparr>,
              1 \<mapsto> \<lparr>node_val = Uninit, node_next = None\<rparr>],
      brk = 2, avail = 0\<rparr>"

section \<open>The bounded queue on one thread\<close>

lemma valid_capacity_unat:
  assumes "valid_capacity c"
  obtains n where "1 \<le> n" "n < 64" "c = 2 ^ n" "unat c = 2 ^ n"
proof -
  from assms obtain n where n: "1 \<le> n" "n < 64" "c = 2 ^ n"
    unfolding valid_capacity_def by auto
  have "(2::nat) ^ n < 2 ^ LENGTH(64)"
    using n(2) by (intro power_strict_increasing) simp_all
  then have "unat (2 ^ n :: size_t) = 2 ^ n"
    by (intro of_nat_inverse) simp_all
  with n that show ?thesis by blast
qed

lemma valid_capacity_ge2: "valid_capacity c \<Longrightarrow> 2 \<le> unat c"
proof (erule valid_capacity_unat)
  fix n :: nat
  assume "1 \<le> n" "unat c = 2 ^ n"
  then have "(2::nat) ^ 1 \<le> 2 ^ n" by (intro power_increasing) simp_all
  then show "2 \<le> unat c" using \<open>unat c = 2 ^ n\<close> by simp
qed

lemma valid_capacity_dvd: "valid_capacity c \<Longrightarrow> unat c dvd 2 ^ 64"
proof (erule valid_capacity_unat)
  fix n :: nat
  assume "n < 64" "unat c = 2 ^ n"
  then have "(2::nat) ^ n dvd 2 ^ 64" by (intro le_imp_power_dvd) simp
  then show "unat c dvd 2 ^ 64" using \<open>unat c = 2 ^ n\<close> by simp
qed

lemma unat_get_idx:
  assumes "valid_capacity (capacity q)"
  shows "unat (get_idx q t) = unat t mod unat (capacity q)"
proof -
  from assms obtain n where n: "n < 64" "capacity q = 2 ^ n" "unat (capacity q) = 2 ^ n"
    by (auto elim: valid_capacity_unat)
  have "get_idx q t = take_bit n t"
    by (simp add: get_idx_def n flip: mask_eq_exp_minus_1 take_bit_eq_mask)
  then have "unat (get_idx q t) = take_bit n (unat t)"
    by (simp add: unsigned_take_bit_eq)
  then show ?thesis
    by (simp add: n(3) take_bit_eq_mod)
qed

lemma unat_ticket: "unat (of_nat n :: size_t) = n mod 2 ^ 64"
  by (simp add: unat_of_nat)

lemma unat_get_idx_of_nat:
  assumes "valid_capacity (capacity q)"
  shows "unat (get_idx q (of_nat n)) = n mod unat (capacity q)"
proof -
  have "unat (get_idx q (of_nat n)) = (n mod 2 ^ 64) mod unat (capacity q)"
    by (simp only: unat_get_idx [OF assms] unat_ticket)
  also have "\<dots> = n mod unat (capacity q)"
    using valid_capacity_dvd [OF assms] by (rule mod_mod_cancel)
  finally show ?thesis .
qed

lemma get_write_turn_of_nat:
  "get_write_turn q t = of_nat (2 * (unat t div unat (capacity q)))"
  by (simp add: get_write_turn_def word_arith_nat_div mult.commute)

lemma get_read_turn_of_nat:
  "get_read_turn q t = of_nat (2 * (unat t div unat (capacity q)) + 1)"
  by (simp add: get_read_turn_def word_arith_nat_div mult.commute)

lemma get_write_turn_ticket:
  "get_write_turn q (of_nat n) = write_turn_of (unat (capacity q)) n"
  unfolding get_write_turn_of_nat write_turn_of_def by (simp only: unat_ticket)

lemma get_read_turn_ticket:
  "get_read_turn q (of_nat n) = read_turn_of (unat (capacity q)) n"
  unfolding get_read_turn_of_nat read_turn_of_def by (simp only: unat_ticket)

lemma unat_get_write_turn:
  assumes "2 \<le> unat (capacity q)"
  shows "unat (get_write_turn q t) = 2 * (unat t div unat (capacity q))"
proof -
  have "unat t < 2 ^ 64" using unsigned_less [of t] by simp
  then have "unat t div unat (capacity q) < 2 ^ 63"
    using assms by (simp add: less_mult_imp_div_less)
  then have "2 * (unat t div unat (capacity q)) < 2 ^ 64" by simp
  then show ?thesis
    by (intro of_nat_inverse) (simp_all add: get_write_turn_of_nat del: of_nat_mult of_nat_add)
qed

lemma unat_get_read_turn:
  assumes "2 \<le> unat (capacity q)"
  shows "unat (get_read_turn q t) = 2 * (unat t div unat (capacity q)) + 1"
proof -
  have "unat t < 2 ^ 64" using unsigned_less [of t] by simp
  then have "unat t div unat (capacity q) < 2 ^ 63"
    using assms by (simp add: less_mult_imp_div_less)
  then have "2 * (unat t div unat (capacity q)) + 1 < 2 ^ 64" by simp
  then show ?thesis
    by (intro of_nat_inverse) (simp_all add: get_read_turn_of_nat del: of_nat_mult of_nat_add)
qed

lemma has_val_odd: "has_val s \<longleftrightarrow> odd (turn s)"
  by (simp add: has_val_def and_one_eq mod_2_eq_odd)

lemma odd_read_turn_of: "odd (read_turn_of C n)"
  by (simp add: read_turn_of_def)

lemma even_write_turn_of: "even (write_turn_of C n)"
  by (simp add: write_turn_of_def)

lemma even_free_turn_of: "even (free_turn_of C n)"
  by (simp add: free_turn_of_def odd_read_turn_of)

lemma read_turn_neq_write_turn: "read_turn_of C n \<noteq> write_turn_of C m"
  using odd_read_turn_of [of C n] even_write_turn_of [of C m] by metis

lemma free_turn_neq_read_turn: "free_turn_of C n \<noteq> read_turn_of C m"
  using odd_read_turn_of [of C m] even_free_turn_of [of C n] by metis

text \<open>As long as the tickets have not wrapped, a slot is free at the very turn its next
  writer waits for.\<close>

lemma free_turn_of_no_wrap:
  assumes "0 < C" "n < 2 ^ 64"
  shows "free_turn_of C n = write_turn_of C n"
proof (cases "n < C")
  case True
  then show ?thesis by (simp add: free_turn_of_def write_turn_of_def)
next
  case False
  then have "n div C = Suc ((n - C) div C)"
    using assms(1) by (metis div_add_self2 le_add_diff_inverse2 less_numeral_extra(3) not_less Suc_eq_plus1)
  moreover have "(n - C) mod 2 ^ 64 = n - C" "n mod 2 ^ 64 = n" using assms(2) by simp_all
  ultimately show ?thesis
    using False by (simp add: free_turn_of_def write_turn_of_def read_turn_of_def)
qed

lemma ring_index_inj:
  fixes C H j k :: nat
  assumes "j < C" "k < C" "(H + j) mod C = (H + k) mod C"
  shows "j = k"
proof -
  have aux: "a = b" if "a \<le> b" "b < C" "(H + a) mod C = (H + b) mod C" for a b
  proof -
    have "C dvd (H + b) - (H + a)"
      using that by (subst mod_eq_dvd_iff_nat [symmetric]) simp_all
    then have "C dvd b - a" by simp
    then have "b - a = 0"
      using that by (meson dvd_imp_le less_imp_diff_less not_less zero_less_iff_neq_zero)
    with that show ?thesis by simp
  qed
  show ?thesis
  proof (cases "j \<le> k")
    case True
    with assms aux show ?thesis by blast
  next
    case False
    then have "k \<le> j" by simp
    with assms aux [of k j] show ?thesis by simp
  qed
qed

lemma try_emplace_seq:
  assumes "unat (get_idx q (tail q)) < length (array q)"
  shows "try_emplace v q =
     Some (let i = unat (get_idx q (tail q)); slot = array q ! i in
           if get_write_turn q (tail q) = turn slot then
             (case slot_construct v slot of
                Inl e \<Rightarrow> (Inl e, q\<lparr>tail := tail q + 1\<rparr>)
              | Inr slot' \<Rightarrow>
                  (Inr True,
                   q\<lparr>tail := tail q + 1,
                     array := (array q)[i := done_writing q slot' (tail q)]\<rparr>))
           else (Inr False, q))"
  unfolding try_emplace_def Let_def
  apply (subst try_emplace_loop.simps)
  using assms
  apply (simp add: compare_exchange_strong_def Let_def)
  done

lemma try_pop_seq:
  assumes "unat (get_idx q (head q)) < length (array q)"
  shows "try_pop q =
     Some (let i = unat (get_idx q (head q)); slot = array q ! i in
           if get_read_turn q (head q) = turn slot then
             (case move_from (val slot) of
                Inl e \<Rightarrow> (Inl e, q\<lparr>head := head q + 1\<rparr>)
              | Inr (v, st) \<Rightarrow>
                  (case slot_destroy (slot\<lparr>val := st\<rparr>) of
                     Inl e \<Rightarrow> (Inl e, q\<lparr>head := head q + 1\<rparr>)
                   | Inr slot' \<Rightarrow>
                       (Inr (Some v),
                        q\<lparr>head := head q + 1, array := (array q)[i := done_reading slot']\<rparr>)))
           else (Inr None, q))"
  unfolding try_pop_def Let_def
  apply (subst try_pop_loop.simps)
  using assms
  apply (simp add: compare_exchange_strong_def Let_def)
  done

lemma wait_for_turn_Some: "wait_for_turn q i t = Some u \<Longrightarrow> t = turn (array q ! i)"
  by (rule wait_for_turn.raw_induct [where P = "\<lambda>q i t u. t = turn (array q ! i)"])
     (simp_all split: if_splits)

lemma wait_for_turn_eq: "wait_for_turn q i (turn (array q ! i)) = Some ()"
  by (subst wait_for_turn.simps) simp

lemma wait_for_turn_None: "t \<noteq> turn (array q ! i) \<Longrightarrow> wait_for_turn q i t = None"
  using wait_for_turn_Some by (cases "wait_for_turn q i t") auto

lemma wait_for_turn_if:
  "wait_for_turn q i t = (if t = turn (array q ! i) then Some () else None)"
  using wait_for_turn_eq wait_for_turn_None by auto

lemma slot_ok_append:
  "j \<noteq> length xs \<Longrightarrow> slot_ok C H (xs @ [v]) j s = slot_ok C H xs j s"
  by (auto simp: slot_ok_def nth_append)

lemma slot_ok_tl:
  "xs \<noteq> [] \<Longrightarrow> slot_ok C (Suc H) (tl xs) j s = slot_ok C H xs (Suc j) s"
  by (cases xs) (auto simp: slot_ok_def)

lemma div_add_self_Suc: "0 < C \<Longrightarrow> (H + C) div C = Suc (H div C)" for C H :: nat
  using div_add_self2 [of C H] by simp

lemma ucast_less_iff: "ucast (i :: unsigned) < (c :: size_t) \<longleftrightarrow> unat i < unat c"
  by (simp add: word_less_nat_alt unsigned_ucast_eq take_bit_nat_eq_self
      order_less_trans [OF unsigned_less])

lemma construct_loop_Some:
  assumes "construct_loop c i arr = Some r"
  shows "unat c < 2 ^ 32 \<and>
         (unat i \<le> unat c \<longrightarrow> r = arr @ replicate (unat c - unat i) \<lparr>turn = 0, val = Uninit\<rparr>)"
proof (rule construct_loop.raw_induct [where P = "\<lambda>c i arr r. unat c < 2 ^ 32 \<and>
         (unat i \<le> unat c \<longrightarrow> r = arr @ replicate (unat c - unat i) \<lparr>turn = 0, val = Uninit\<rparr>)",
         OF _ assms])
  fix f and c :: size_t and i :: unsigned and arr r :: "'a slot_t list"
  assume IH: "\<And>c i arr r. f c i arr = Some r \<Longrightarrow> unat c < 2 ^ 32 \<and>
         (unat i \<le> unat c \<longrightarrow> r = arr @ replicate (unat c - unat i) \<lparr>turn = 0, val = Uninit\<rparr>)"
    and step: "(if ucast i < c then f c (i + 1) (arr @ [\<lparr>turn = 0, val = Uninit\<rparr>]) else Some arr) = Some r"
  have ib: "unat i < 2 ^ 32" using unsigned_less [of i] by simp
  show "unat c < 2 ^ 32 \<and>
         (unat i \<le> unat c \<longrightarrow> r = arr @ replicate (unat c - unat i) \<lparr>turn = 0, val = Uninit\<rparr>)"
  proof (cases "unat i < unat c")
    case True
    with step have "f c (i + 1) (arr @ [\<lparr>turn = 0, val = Uninit\<rparr>]) = Some r"
      by (simp add: ucast_less_iff)
    from IH [OF this] have c: "unat c < 2 ^ 32"
      and r: "unat (i + 1) \<le> unat c \<Longrightarrow>
                r = (arr @ [\<lparr>turn = 0, val = Uninit\<rparr>]) @
                      replicate (unat c - unat (i + 1)) \<lparr>turn = 0, val = Uninit\<rparr>"
      by simp_all
    from True c have "unat i + 1 < 2 ^ 32" by simp
    then have i1: "unat (i + 1) = Suc (unat i)" by (simp add: unat_add_lem [THEN iffD1])
    have "unat c - unat i = Suc (unat c - unat (i + 1))" using True i1 by simp
    then have rep: "replicate (unat c - unat i) \<lparr>turn = 0, val = Uninit :: 'a storage\<rparr> =
      \<lparr>turn = 0, val = Uninit\<rparr> # replicate (unat c - unat (i + 1)) \<lparr>turn = 0, val = Uninit\<rparr>"
      by (simp only: replicate_Suc)
    from r True c i1 show ?thesis by (simp add: rep)
  next
    case False
    with step ib show ?thesis by (simp add: ucast_less_iff)
  qed
qed

lemma construct_loop_small:
  assumes "unat c < 2 ^ 32" "unat i \<le> unat c"
  shows "construct_loop c i arr = Some (arr @ replicate (unat c - unat i) \<lparr>turn = 0, val = Uninit\<rparr>)"
  using assms
proof (induction "unat c - unat i" arbitrary: i arr)
  case 0
  then show ?case by (subst construct_loop.simps) (simp add: ucast_less_iff)
next
  case (Suc n)
  then have lt: "unat i < unat c" by simp
  with Suc.prems have "unat i + 1 < 2 ^ 32" by simp
  then have i1: "unat (i + 1) = Suc (unat i)" by (simp add: unat_add_lem [THEN iffD1])
  have n: "n = unat c - unat (i + 1)" using Suc.hyps(2) i1 by simp
  have "unat c - unat i = Suc (unat c - unat (i + 1))" using lt i1 by simp
  then have rep: "replicate (unat c - unat i) \<lparr>turn = 0, val = Uninit :: 'a storage\<rparr> =
      \<lparr>turn = 0, val = Uninit\<rparr> # replicate (unat c - unat (i + 1)) \<lparr>turn = 0, val = Uninit\<rparr>"
    by (simp only: replicate_Suc)
  from Suc.hyps(1) [OF n, of "arr @ [\<lparr>turn = 0, val = Uninit\<rparr>]"] Suc.prems lt i1
  have "construct_loop c (i + 1) (arr @ [\<lparr>turn = 0, val = Uninit\<rparr>]) =
          Some (arr @ replicate (unat c - unat i) \<lparr>turn = 0, val = Uninit\<rparr>)"
    by (simp add: rep)
  then show ?case using lt by (subst construct_loop.simps) (simp add: ucast_less_iff)
qed

lemma construct_eq:
  "construct c = (if unat c < 2 ^ 32 then Some (replicate (unat c) \<lparr>turn = 0, val = Uninit\<rparr>) else None)"
proof (cases "unat c < 2 ^ 32")
  case True
  then show ?thesis using construct_loop_small [of c 0 "[]"] by (simp add: construct_def)
next
  case False
  then show ?thesis using construct_loop_Some [of c 0 "[]"]
    by (cases "construct c :: 'a slot_t list option") (auto simp: construct_def)
qed

lemma array_blocking_queue_eq:
  "array_blocking_queue p c =
     (if \<not> 1 < c \<or> odd c then Some (Inl Assertion_Failed)
      else if \<not> p then Some (Inl Bad_Alloc)
      else if unat c < 2 ^ 32 then Some (Inr (fresh c))
      else None)"
  by (simp add: array_blocking_queue_def allocate_def construct_eq fresh_def
      even_iff_mod_2_eq_zero)

lemma array_blocking_queue_Inr:
  "array_blocking_queue p c = Some (Inr q) \<longleftrightarrow>
     1 < c \<and> even c \<and> p \<and> unat c < 2 ^ 32 \<and> q = fresh c"
  by (auto simp: array_blocking_queue_eq)

lemma pushed_Cons: "pushed (ev # evs) = pushed [ev] @ pushed evs"
  by (cases ev) simp_all

lemma popped_Cons: "popped (ev # evs) = popped [ev] @ popped evs"
  by (cases ev) simp_all

lemma pushed_alternate [simp]: "pushed (alternate_events vs) = vs"
  by (induction vs) (simp_all add: alternate_events_def)

lemma popped_alternate [simp]: "popped (alternate_events vs) = vs"
  by (induction vs) (simp_all add: alternate_events_def)

lemma ring_index_surj:
  fixes C H i :: nat
  assumes "i < C"
  shows "\<exists>j < C. (H + j) mod C = i"
proof -
  let ?j = "(i + (C - H mod C)) mod C"
  have pos: "0 < C" using assms by simp
  have "H mod C < C" using pos by simp
  have "(H + ?j) mod C = (H + (i + (C - H mod C))) mod C"
    by (simp add: mod_add_right_eq)
  also have "\<dots> = (H mod C + (i + (C - H mod C))) mod C"
    by (simp only: mod_add_left_eq)
  also have "H mod C + (i + (C - H mod C)) = i + C" using \<open>H mod C < C\<close> by simp
  also have "(i + C) mod C = i" using assms by simp
  finally have "(H + ?j) mod C = i" .
  moreover have "?j < C" using pos by simp
  ultimately show ?thesis by blast
qed

lemma abq_at_idx:
  assumes "abq_at q N xs"
  shows "unat (get_idx q t) < length (array q)"
    and "unat (get_idx q (of_nat n)) = n mod unat (capacity q)"
proof -
  from assms have v: "valid_capacity (capacity q)" and l: "length (array q) = unat (capacity q)"
    by (simp_all add: abq_at_def)
  from valid_capacity_ge2 [OF v] show "unat (get_idx q t) < length (array q)"
    by (simp add: unat_get_idx [OF v] l)
  show "unat (get_idx q (of_nat n)) = n mod unat (capacity q)"
    using v by (rule unat_get_idx_of_nat)
qed

lemma abq_at_tail_slot:
  assumes "abq_at q N xs"
  shows "length xs < unat (capacity q) \<Longrightarrow>
           array q ! unat (get_idx q (tail q)) =
             \<lparr>turn = free_turn_of (unat (capacity q)) (N + length xs), val = Uninit\<rparr>"
    and "length xs = unat (capacity q) \<Longrightarrow>
           turn (array q ! unat (get_idx q (tail q))) \<noteq> get_write_turn q (tail q)"
proof -
  let ?C = "unat (capacity q)"
  from assms have T: "tail q = of_nat (N + length xs)"
    and ok: "\<And>j. j < ?C \<Longrightarrow> slot_ok ?C N xs j (array q ! ((N + j) mod ?C))"
    and v: "valid_capacity (capacity q)"
    by (simp_all add: abq_at_def)
  have i: "unat (get_idx q (tail q)) = (N + length xs) mod ?C"
    unfolding T using assms by (rule abq_at_idx)
  {
    assume "length xs < ?C"
    from ok [OF this] show "array q ! unat (get_idx q (tail q)) =
             \<lparr>turn = free_turn_of ?C (N + length xs), val = Uninit\<rparr>"
      by (simp add: slot_ok_def i)
  }
  {
    assume full: "length xs = ?C"
    have pos: "0 < ?C" using valid_capacity_ge2 [OF v] by simp
    from ok [OF pos] full pos
    have "turn (array q ! (N mod ?C)) = read_turn_of ?C N" by (simp add: slot_ok_def)
    moreover have "(N + length xs) mod ?C = N mod ?C" using full by simp
    ultimately have "turn (array q ! unat (get_idx q (tail q))) = read_turn_of ?C N"
      by (simp only: i)
    then show "turn (array q ! unat (get_idx q (tail q))) \<noteq> get_write_turn q (tail q)"
      unfolding T by (simp only: get_write_turn_ticket read_turn_neq_write_turn not_False_eq_True)
  }
qed

lemma abq_at_head_slot:
  assumes "abq_at q N xs"
  shows "xs \<noteq> [] \<Longrightarrow>
           array q ! unat (get_idx q (head q)) =
             \<lparr>turn = get_read_turn q (head q), val = Constructed (hd xs)\<rparr>"
    and "xs = [] \<Longrightarrow> turn (array q ! unat (get_idx q (head q))) \<noteq> get_read_turn q (head q)"
proof -
  let ?C = "unat (capacity q)"
  from assms have H: "head q = of_nat N"
    and ok: "\<And>j. j < ?C \<Longrightarrow> slot_ok ?C N xs j (array q ! ((N + j) mod ?C))"
    and v: "valid_capacity (capacity q)"
    by (simp_all add: abq_at_def)
  have pos: "0 < ?C" using valid_capacity_ge2 [OF v] by simp
  have i: "unat (get_idx q (head q)) = N mod ?C"
    unfolding H using assms by (rule abq_at_idx)
  {
    assume "xs \<noteq> []"
    with ok [OF pos] show "array q ! unat (get_idx q (head q)) =
             \<lparr>turn = get_read_turn q (head q), val = Constructed (hd xs)\<rparr>"
      by (simp add: slot_ok_def i hd_conv_nth) (simp add: H get_read_turn_ticket)
  }
  {
    assume "xs = []"
    with ok [OF pos] have "turn (array q ! (N mod ?C)) = free_turn_of ?C N"
      by (simp add: slot_ok_def)
    then have "turn (array q ! unat (get_idx q (head q))) = free_turn_of ?C N"
      by (simp only: i)
    then show "turn (array q ! unat (get_idx q (head q))) \<noteq> get_read_turn q (head q)"
      unfolding H by (simp only: get_read_turn_ticket free_turn_neq_read_turn not_False_eq_True)
  }
qed

lemma try_emplace_at:
  assumes "abq_at q N xs"
  shows "try_emplace v q =
           Some (if can_push (unat (capacity q)) N (length xs)
                 then (Inr True, after_push q v) else (Inr False, q))"
proof -
  from assms have le: "length xs \<le> unat (capacity q)"
    and T: "tail q = of_nat (N + length xs)" by (simp_all add: abq_at_def)
  have wt: "get_write_turn q (tail q) = write_turn_of (unat (capacity q)) (N + length xs)"
    unfolding T by (rule get_write_turn_ticket)
  show ?thesis
  proof (cases "length xs < unat (capacity q)")
    case True
    with abq_at_tail_slot(1) [OF assms] abq_at_idx(1) [OF assms] show ?thesis
      by (auto simp: try_emplace_seq slot_construct_def done_writing_def after_push_def
          can_push_def wt)
  next
    case False
    with le have "length xs = unat (capacity q)" by simp
    with abq_at_tail_slot(2) [OF assms] abq_at_idx(1) [OF assms] False show ?thesis
      by (simp add: try_emplace_seq Let_def can_push_def)
  qed
qed

lemma emplace_at:
  assumes "abq_at q N xs"
  shows "emplace v q =
           (if can_push (unat (capacity q)) N (length xs)
            then Some (Inr (), after_push q v) else None)"
proof -
  from assms have le: "length xs \<le> unat (capacity q)"
    and T: "tail q = of_nat (N + length xs)" by (simp_all add: abq_at_def)
  have wt: "tail q div capacity q * 2 = write_turn_of (unat (capacity q)) (N + length xs)"
    unfolding T using get_write_turn_ticket [of q "N + length xs"]
    by (simp only: get_write_turn_def)
  show ?thesis
  proof (cases "length xs < unat (capacity q)")
    case True
    with abq_at_tail_slot(1) [OF assms] abq_at_idx(1) [OF assms, of "tail q"] show ?thesis
      by (auto simp: emplace_def wait_for_turn_if slot_construct_def done_writing_def
          after_push_def get_idx_def get_write_turn_def get_read_turn_def Let_def can_push_def wt)
  next
    case False
    with le have "length xs = unat (capacity q)" by simp
    with abq_at_tail_slot(2) [OF assms] abq_at_idx(1) [OF assms, of "tail q"] False show ?thesis
      by (simp add: emplace_def wait_for_turn_if get_idx_def get_write_turn_def Let_def
          can_push_def)
  qed
qed

lemma try_pop_at:
  assumes "abq_at q N xs"
  shows "try_pop q =
           Some (if xs = [] then (Inr None, q) else (Inr (Some (hd xs)), after_pop q))"
proof (cases "xs = []")
  case True
  with abq_at_head_slot(2) [OF assms] abq_at_idx(1) [OF assms] show ?thesis
    by (simp add: try_pop_seq Let_def)
next
  case False
  with abq_at_head_slot(1) [OF assms] abq_at_idx(1) [OF assms] show ?thesis
    by (simp add: try_pop_seq move_from_def slot_destroy_def done_reading_def after_pop_def)
qed

lemma pop_at:
  assumes "abq_at q N xs"
  shows "pop q = (if xs = [] then None else Some (Inr (hd xs), after_pop q))"
proof (cases "xs = []")
  case True
  with abq_at_head_slot(2) [OF assms] abq_at_idx(1) [OF assms, of "head q"] show ?thesis
    by (simp add: pop_def wait_for_turn_if get_idx_def get_read_turn_def Let_def)
next
  case False
  with abq_at_head_slot(1) [OF assms] abq_at_idx(1) [OF assms, of "head q"] show ?thesis
    by (simp add: pop_def wait_for_turn_if move_from_def slot_destroy_def done_reading_def
        after_pop_def get_idx_def get_read_turn_def Let_def)
qed

lemma abq_atI:
  assumes "valid_capacity (capacity q)" "length (array q) = unat (capacity q)"
    "head q = of_nat N" "tail q = of_nat (N + length xs)" "length xs \<le> unat (capacity q)"
    "\<And>j. j < unat (capacity q) \<Longrightarrow>
       slot_ok (unat (capacity q)) N xs j (array q ! ((N + j) mod unat (capacity q)))"
  shows "abq_at q N xs"
  unfolding abq_at_def using assms by blast

lemma after_push_at:
  assumes inv: "abq_at q N xs" and room: "length xs < unat (capacity q)"
  shows "abq_at (after_push q v) N (xs @ [v])"
proof -
  let ?C = "unat (capacity q)"
  let ?s = "\<lparr>turn = get_read_turn q (tail q), val = Constructed v\<rparr>"
  from inv have T: "tail q = of_nat (N + length xs)" and H: "head q = of_nat N"
    and ok: "\<And>j. j < ?C \<Longrightarrow> slot_ok ?C N xs j (array q ! ((N + j) mod ?C))"
    and v: "valid_capacity (capacity q)" and len: "length (array q) = ?C"
    by (simp_all add: abq_at_def)
  have i: "unat (get_idx q (tail q)) = (N + length xs) mod ?C"
    unfolding T using inv by (rule abq_at_idx)
  have rt: "get_read_turn q (tail q) = read_turn_of ?C (N + length xs)"
    unfolding T by (rule get_read_turn_ticket)
  have pos: "0 < ?C" using valid_capacity_ge2 [OF v] by simp
  have T1: "tail q + 1 = of_nat (N + length (xs @ [v]))" by (simp add: T)
  have ap: "capacity (after_push q v) = capacity q"
    "array (after_push q v) = (array q)[(N + length xs) mod ?C := ?s]"
    "head (after_push q v) = head q" "tail (after_push q v) = tail q + 1"
    by (simp_all add: after_push_def i)
  have slots: "slot_ok ?C N (xs @ [v]) j ((array q)[(N + length xs) mod ?C := ?s] ! ((N + j) mod ?C))"
    if j: "j < ?C" for j
  proof (cases "j = length xs")
    case True
    then show ?thesis using pos len by (simp add: slot_ok_def rt)
  next
    case False
    have "(N + j) mod ?C \<noteq> (N + length xs) mod ?C"
      using ring_index_inj [OF j room, of N] False by auto
    then show ?thesis using ok [OF j] False by (simp add: slot_ok_append)
  qed
  show ?thesis
  proof (rule abq_atI)
    show "valid_capacity (capacity (after_push q v))" unfolding ap by fact
    show "length (array (after_push q v)) = unat (capacity (after_push q v))"
      unfolding ap using len by simp
    show "head (after_push q v) = of_nat N" unfolding ap by fact
    show "tail (after_push q v) = of_nat (N + length (xs @ [v]))" unfolding ap by fact
    show "length (xs @ [v]) \<le> unat (capacity (after_push q v))"
      unfolding ap using room by simp
    show "slot_ok (unat (capacity (after_push q v))) N (xs @ [v]) j
            (array (after_push q v) ! ((N + j) mod unat (capacity (after_push q v))))"
      if "j < unat (capacity (after_push q v))" for j
      using that unfolding ap by (rule slots)
  qed
qed

lemma after_pop_at:
  assumes inv: "abq_at q N xs" and ne: "xs \<noteq> []"
  shows "abq_at (after_pop q) (Suc N) (tl xs)"
proof -
  let ?C = "unat (capacity q)"
  let ?s = "\<lparr>turn = get_read_turn q (head q) + 1, val = Uninit\<rparr>"
  from inv have T: "tail q = of_nat (N + length xs)" and H: "head q = of_nat N"
    and ok: "\<And>j. j < ?C \<Longrightarrow> slot_ok ?C N xs j (array q ! ((N + j) mod ?C))"
    and v: "valid_capacity (capacity q)" and len: "length (array q) = ?C"
    and le: "length xs \<le> ?C"
    by (simp_all add: abq_at_def)
  have i: "unat (get_idx q (head q)) = N mod ?C"
    unfolding H using inv by (rule abq_at_idx)
  have rt: "get_read_turn q (head q) = read_turn_of ?C N"
    unfolding H by (rule get_read_turn_ticket)
  have pos: "0 < ?C" using valid_capacity_ge2 [OF v] by simp
  have H1: "head q + 1 = of_nat (Suc N)" by (simp add: H)
  have "Suc N + length (tl xs) = N + length xs" using ne by (cases xs) simp_all
  then have T1: "tail q = of_nat (Suc N + length (tl xs))" by (simp only: T)
  have ap: "capacity (after_pop q) = capacity q"
    "array (after_pop q) = (array q)[N mod ?C := ?s]"
    "head (after_pop q) = head q + 1" "tail (after_pop q) = tail q"
    by (simp_all add: after_pop_def i)
  have slots: "slot_ok ?C (Suc N) (tl xs) j ((array q)[N mod ?C := ?s] ! ((Suc N + j) mod ?C))"
    if j: "j < ?C" for j
  proof (cases "Suc j = ?C")
    case True
    then have e: "Suc N + j = N + ?C" by simp
    have "(Suc N + j) mod ?C = N mod ?C" unfolding e by simp
    moreover have "free_turn_of ?C (Suc N + j) = read_turn_of ?C N + 1"
      unfolding e by (simp add: free_turn_of_def)
    moreover have "\<not> j < length (tl xs)" using True le ne by (cases xs) auto
    ultimately show ?thesis using pos len by (simp add: slot_ok_def rt)
  next
    case False
    with j have Sj: "Suc j < ?C" by simp
    have "(N + Suc j) mod ?C \<noteq> (N + 0) mod ?C"
      using ring_index_inj [OF Sj pos, of N] by auto
    then show ?thesis using ok [OF Sj] ne by (simp add: slot_ok_tl)
  qed
  show ?thesis
  proof (rule abq_atI)
    show "valid_capacity (capacity (after_pop q))" unfolding ap by fact
    show "length (array (after_pop q)) = unat (capacity (after_pop q))"
      unfolding ap using len by simp
    show "head (after_pop q) = of_nat (Suc N)" unfolding ap by fact
    show "tail (after_pop q) = of_nat (Suc N + length (tl xs))" unfolding ap by fact
    show "length (tl xs) \<le> unat (capacity (after_pop q))"
      unfolding ap using le by simp
    show "slot_ok (unat (capacity (after_pop q))) (Suc N) (tl xs) j
            (array (after_pop q) ! ((Suc N + j) mod unat (capacity (after_pop q))))"
      if "j < unat (capacity (after_pop q))" for j
      using that unfolding ap by (rule slots)
  qed
qed

lemma fresh_at: "valid_capacity c \<Longrightarrow> abq_at (fresh c) 0 []"
  by (simp add: abq_at_def fresh_def slot_ok_def free_turn_of_def)

lemma abq_at_empty_iff:
  assumes "abq_at q N xs"
  shows "head q = tail q \<longleftrightarrow> xs = []"
proof
  assume eq: "head q = tail q"
  from assms have H: "head q = of_nat N" and T: "tail q = of_nat (N + length xs)"
    and le: "length xs \<le> unat (capacity q)"
    by (simp_all add: abq_at_def)
  have "unat (capacity q) < 2 ^ 64" using unsigned_less [of "capacity q"] by simp
  with le have small: "length xs < 2 ^ 64" by simp
  from eq H T have "unat (of_nat N :: size_t) = unat (of_nat (N + length xs) :: size_t)"
    by simp
  then have "(N + length xs) mod 2 ^ 64 = N mod 2 ^ 64" by (simp only: unat_ticket)
  then have "(2::nat) ^ 64 dvd (N + length xs) - N"
    by (subst (asm) mod_eq_dvd_iff_nat) simp_all
  then have "(2::nat) ^ 64 dvd length xs" by simp
  with small have "length xs = 0" by (meson dvd_imp_le not_less zero_less_iff_neq_zero)
  then show "xs = []" by simp
next
  assume "xs = []"
  with assms show "head q = tail q" by (simp add: abq_at_def)
qed

lemma can_push_no_wrap:
  assumes "valid_capacity c" "len < unat c" "N + len < 2 ^ 64"
  shows "can_push (unat c) N len"
  unfolding can_push_def
  using assms(2) free_turn_of_no_wrap [OF _ assms(3), of "unat c"] valid_capacity_ge2 [OF assms(1)]
  by simp

lemma call_step_at:
  assumes inv: "abq_at q N xs" and step: "call_step c q = Some (r, q')"
  shows "\<exists>ev xs'. r = Inr ev \<and> abq_at q' (N + length (popped [ev])) xs' \<and>
           xs @ pushed [ev] = popped [ev] @ xs' \<and> capacity q' = capacity q"
proof (cases c)
  case (Push v)
  with step inv have can: "can_push (unat (capacity q)) N (length xs)"
    and r: "r = Inr (Pushed v)" and q': "q' = after_push q v"
    by (auto simp: push_def emplace_at split: if_splits)
  from can have room: "length xs < unat (capacity q)" by (simp add: can_push_def)
  from after_push_at [OF inv room, of v] r q' show ?thesis
    by (auto simp: after_push_def)
next
  case (Try_Push v)
  show ?thesis
  proof (cases "can_push (unat (capacity q)) N (length xs)")
    case True
    with Try_Push step inv have r: "r = Inr (Pushed v)" and q': "q' = after_push q v"
      by (auto simp: try_push_def try_emplace_at)
    from True have room: "length xs < unat (capacity q)" by (simp add: can_push_def)
    from after_push_at [OF inv room, of v] r q' show ?thesis
      by (auto simp: after_push_def)
  next
    case False
    with Try_Push step inv have "r = Inr (Push_Refused v)" "q' = q"
      by (auto simp: try_push_def try_emplace_at)
    with inv show ?thesis by auto
  qed
next
  case Pop
  with step inv have ne: "xs \<noteq> []" and r: "r = Inr (Popped (hd xs))" and q': "q' = after_pop q"
    by (auto simp: pop_at split: if_splits)
  from after_pop_at [OF inv ne] r q' ne show ?thesis
    by (cases xs) (auto simp: after_pop_def)
next
  case Try_Pop
  show ?thesis
  proof (cases "xs = []")
    case True
    with Try_Pop step inv have "r = Inr Pop_Refused" "q' = q"
      by (auto simp: try_pop_at)
    with inv True show ?thesis by auto
  next
    case False
    with Try_Pop step inv have r: "r = Inr (Popped (hd xs))" and q': "q' = after_pop q"
      by (auto simp: try_pop_at)
    from after_pop_at [OF inv False] r q' False show ?thesis
      by (cases xs) (auto simp: after_pop_def)
  qed
qed

lemma run_at:
  assumes "abq_at q N xs" "run cs q = Some (r, q')"
  shows "\<exists>evs xs'. r = Inr evs \<and> abq_at q' (N + length (popped evs)) xs' \<and>
           xs @ pushed evs = popped evs @ xs' \<and> length evs = length cs \<and>
           capacity q' = capacity q"
  using assms
proof (induction cs arbitrary: q N xs r q')
  case Nil
  then show ?case by auto
next
  case (Cons c cs)
  from Cons.prems(2) obtain r1 q1 where s1: "call_step c q = Some (r1, q1)"
    by (cases "call_step c q") auto
  from call_step_at [OF Cons.prems(1) s1] obtain ev xs1 where
    r1: "r1 = Inr ev" and inv1: "abq_at q1 (N + length (popped [ev])) xs1"
    and eq1: "xs @ pushed [ev] = popped [ev] @ xs1"
    and c1: "capacity q1 = capacity q" by blast
  from Cons.prems(2) s1 r1 obtain r2 where s2: "run cs q1 = Some (r2, q')"
    by (cases "run cs q1") (auto split: sum.splits)
  from Cons.IH [OF inv1 s2] obtain evs xs' where
    r2: "r2 = Inr evs"
    and inv': "abq_at q' (N + length (popped [ev]) + length (popped evs)) xs'"
    and eq2: "xs1 @ pushed evs = popped evs @ xs'"
    and len: "length evs = length cs"
    and c2: "capacity q' = capacity q1" by blast
  from Cons.prems(2) s1 r1 s2 r2 have r: "r = Inr (ev # evs)" by simp
  have eq: "xs @ pushed (ev # evs) = popped (ev # evs) @ xs'"
    using eq1 eq2 by (metis append.assoc popped_Cons pushed_Cons)
  have "length (popped (ev # evs)) = length (popped [ev]) + length (popped evs)"
    by (subst popped_Cons) simp
  with inv' have inv'': "abq_at q' (N + length (popped (ev # evs))) xs'"
    by (simp only: add.assoc)
  have l: "length (ev # evs) = length (c # cs)" using len by simp
  have cap: "capacity q' = capacity q" using c1 c2 by simp
  show ?case unfolding r using inv'' eq l cap by blast
qed

lemma reachable_at:
  assumes "array_blocking_queue p c = Some (Inr q0)" "valid_capacity c"
    "run cs q0 = Some (r, q)"
  shows "\<exists>evs xs. r = Inr evs \<and> abq_at q (length (popped evs)) xs \<and>
           pushed evs = popped evs @ xs \<and> length evs = length cs \<and> capacity q = c"
proof -
  from assms(1) have q0: "q0 = fresh c" by (simp add: array_blocking_queue_Inr)
  have "abq_at q0 0 []" unfolding q0 using assms(2) by (rule fresh_at)
  from run_at [OF this assms(3)] show ?thesis by (simp add: q0 fresh_def)
qed

lemma length_popped_le: "length (popped evs) \<le> length evs"
  by (induction evs rule: popped.induct) simp_all

lemma pushes_fill:
  assumes "abq_at q N xs" "list_all is_push cs"
    "length xs + length cs \<le> unat (capacity q)" "N + length xs + length cs \<le> 2 ^ 64"
  shows "\<exists>q1. run cs q = Some (Inr (map Pushed (map pushed_value cs)), q1) \<and>
           abq_at q1 N (xs @ map pushed_value cs) \<and> capacity q1 = capacity q"
  using assms
proof (induction cs arbitrary: q xs)
  case Nil
  then show ?case by simp
next
  case (Cons c cs)
  from Cons.prems have room: "length xs < unat (capacity q)"
    and nowrap: "N + length xs < 2 ^ 64" by simp_all
  from Cons.prems(1) have v: "valid_capacity (capacity q)" by (simp add: abq_at_def)
  have can: "can_push (unat (capacity q)) N (length xs)"
    using v room nowrap by (rule can_push_no_wrap)
  from Cons.prems(2) obtain v where c: "c = Push v \<or> c = Try_Push v"
    by (cases c) simp_all
  have pv: "pushed_value c = v" using c by auto
  have s1: "call_step c q = Some (Inr (Pushed v), after_push q v)"
    using c can Cons.prems(1)
    by (auto simp: push_def try_push_def emplace_at try_emplace_at)
  have inv1: "abq_at (after_push q v) N (xs @ [v])"
    using Cons.prems(1) room by (rule after_push_at)
  have cap: "capacity (after_push q v) = capacity q" by (simp add: after_push_def)
  from Cons.IH [OF inv1, unfolded cap] Cons.prems
  obtain q1 where "run cs (after_push q v) = Some (Inr (map Pushed (map pushed_value cs)), q1)"
    "abq_at q1 N ((xs @ [v]) @ map pushed_value cs)" "capacity q1 = capacity q"
    by auto
  with s1 pv show ?case by simp
qed


lemma abq_at_slots:
  assumes "abq_at q N xs" "s \<in> set (array q)"
  shows "(has_val s \<longleftrightarrow> (\<exists>v. val s = Constructed v)) \<and> (\<not> has_val s \<longleftrightarrow> val s = Uninit)"
proof -
  let ?C = "unat (capacity q)"
  from assms(1) have len: "length (array q) = ?C"
    and ok: "\<And>j. j < ?C \<Longrightarrow> slot_ok ?C N xs j (array q ! ((N + j) mod ?C))"
    by (simp_all add: abq_at_def)
  from assms(2) obtain i where i: "i < ?C" "s = array q ! i"
    by (auto simp: in_set_conv_nth len)
  from ring_index_surj [OF i(1), of N] obtain j where j: "j < ?C" "(N + j) mod ?C = i" by blast
  from ok [OF j(1)] j(2) i(2) have sok: "slot_ok ?C N xs j s" by simp
  show ?thesis
  proof (cases "j < length xs")
    case True
    with sok have "turn s = read_turn_of ?C (N + j)" "val s = Constructed (xs ! j)"
      by (simp_all add: slot_ok_def)
    then show ?thesis using odd_read_turn_of [of ?C "N + j"] by (simp add: has_val_odd)
  next
    case False
    with sok have "turn s = free_turn_of ?C (N + j)" "val s = Uninit"
      by (simp_all add: slot_ok_def)
    then show ?thesis using even_free_turn_of [of ?C "N + j"] by (simp add: has_val_odd)
  qed
qed


section \<open>The unbounded queue on one thread\<close>

lemma spinlock_lock_free: "spinlock_lock False = Some True"
  by (subst spinlock_lock.simps) (simp add: exchange_def)

lemma queue_end_lock_idem: "\<not> lock e \<Longrightarrow> e\<lparr>lock := False\<rparr> = e"
  by (cases e) simp

lemma path_frame: "a \<notin> set as \<Longrightarrow> path (h(a \<mapsto> n)) p as q = path h p as q"
  by (induction as arbitrary: p) (auto split: option.splits)

lemma path_append:
  "path h p (as @ bs) q \<longleftrightarrow> (\<exists>r. path h p as r \<and> path h r bs q)"
  by (induction as arbitrary: p) (auto split: option.splits)

lemma path_None: "path h None as q \<longleftrightarrow> as = [] \<and> q = None"
  by (cases as) auto

lemma path_Some_cases:
  "path h (Some a) as None \<longleftrightarrow>
     (\<exists>n as'. as = a # as' \<and> h a = Some n \<and> path h (node_next n) as' None)"
  by (cases as) (auto split: option.splits)

lemma free_node_seq:
  assumes "heap q a = Some n"
  shows "free_node (Some a) q =
           Some (Inr (), q\<lparr>heap := (heap q)(a \<mapsto> n\<lparr>node_next := free_list q\<rparr>), free_list := Some a\<rparr>)"
  unfolding free_node_def using assms
  by (simp, subst free_node_loop.simps)
     (simp add: compare_exchange_weak_def compare_exchange_strong_def)

lemma alloc_from_free_list_seq:
  "alloc_from_free_list q =
     Some (case free_list q of
             None \<Rightarrow> (Inr None, q)
           | Some f \<Rightarrow>
               (case heap q f of
                  None \<Rightarrow> (Inl Wild_Pointer, q)
                | Some n \<Rightarrow> (Inr (Some f), q\<lparr>free_list := node_next n\<rparr>)))"
  unfolding alloc_from_free_list_def Let_def
  by (subst alloc_from_free_list_loop.simps)
     (simp add: compare_exchange_weak_def compare_exchange_strong_def deref_def
        split: option.splits)

lemma cv_wait_Some: "cv_wait q = Some r \<Longrightarrow> lbq_empty q \<noteq> Inr True"
  by (rule cv_wait.raw_induct [where P = "\<lambda>q r. lbq_empty q \<noteq> Inr True"])
     (auto split: sum.splits if_splits)

lemma cv_wait_seq:
  "cv_wait q =
     (case lbq_empty q of Inl e \<Rightarrow> Some (Inl e) | Inr b \<Rightarrow> if b then None else Some (Inr ()))"
proof (cases "lbq_empty q")
  case (Inl e)
  then show ?thesis by (subst cv_wait.simps) simp
next
  case (Inr b)
  show ?thesis
  proof (cases b)
    case True
    with Inr cv_wait_Some [of q] show ?thesis by (cases "cv_wait q") auto
  next
    case False
    with Inr show ?thesis by (subst cv_wait.simps) simp
  qed
qed

lemma alloc_node_malloc:
  assumes "free_list q = None"
  shows "alloc_node q =
     Some (if avail q = 0 then (Inl Null_Dereference, q)
           else (Inr (Some (brk q)),
                 q\<lparr>brk := brk q + 1, avail := avail q - 1,
                   heap := (heap q)(brk q \<mapsto> zero_node)\<rparr>))"
  using assms
  by (simp add: alloc_node_def alloc_from_free_list_seq alloc_from_allocator_def malloc_def
      memset_zero_def)

lemma alloc_node_recycle:
  assumes "free_list q = Some f" "heap q f = Some n" "f < brk q"
  shows "alloc_node q =
     Some (Inr (Some f), q\<lparr>free_list := node_next n, heap := (heap q)(f \<mapsto> zero_node)\<rparr>)"
  using assms
  by (simp add: alloc_node_def alloc_from_free_list_seq memset_zero_def)

lemma lbq_insert_seq:
  assumes "alloc_node q = Some (Inr (Some nn), q1)" "\<not> lock (back_end q1)"
    "ptr (back_end q1) = Some b" "b < brk q1" "heap q1 b = Some zero_node"
  shows "lbq_insert v q =
     Some (Inr (),
           q1\<lparr>heap := (heap q1)(b \<mapsto> \<lparr>node_val = Constructed v, node_next = Some nn\<rparr>),
              back_end := (back_end q1)\<lparr>ptr := Some nn\<rparr>\<rparr>)"
  using assms
  by (simp add: lbq_insert_def spinlock_lock_free construct_node_def deref_def Let_def
      spinlock_unlock_def queue_end_lock_idem)

lemma vals_frame:
  assumes "\<And>a. a \<in> set as \<Longrightarrow> h' a = h a"
  shows "map (\<lambda>x. map_option node_val (h' x)) as = map (\<lambda>x. map_option node_val (h x)) as"
  using assms by (induction as) auto

lemma link_shape:
  assumes sh: "lbq_shape q xs as b fs"
    and nn: "nn \<notin> set as" "nn \<noteq> b" "nn \<notin> set fs'" "nn < brk q'"
    and fs': "set fs' \<subseteq> set fs" "distinct fs'" "path (heap q) (free_list q') fs' None"
    and q': "heap q' = ((heap q)(nn \<mapsto> \<lparr>node_val = Uninit, node_next = None\<rparr>))
                 (b \<mapsto> \<lparr>node_val = Constructed v, node_next = Some nn\<rparr>)"
      "front_end q' = front_end q" "back_end q' = (back_end q)\<lparr>ptr := Some nn\<rparr>"
      "brk q \<le> brk q'"
  shows "lbq_shape q' (xs @ [v]) (as @ [b]) nn fs'"
proof -
  from sh have
    p1: "path (heap q) (ptr (front_end q)) as (Some b)"
    and vals: "map (\<lambda>a. map_option node_val (heap q a)) as = map (\<lambda>x. Some (Constructed x)) xs"
    and dist: "distinct (as @ b # fs)"
    and bound: "list_all (\<lambda>a. a < brk q) (as @ b # fs)"
    and locks: "\<not> lock (front_end q)" "\<not> lock (back_end q)"
    by (simp_all add: lbq_shape_def)
  from dist have b_as: "b \<notin> set as" and b_fs: "b \<notin> set fs" by auto
  have "path (heap q') (ptr (front_end q')) as (Some b)"
    using p1 b_as nn(1) by (simp add: q' path_frame)
  moreover have "path (heap q') (Some b) [b] (Some nn)" by (simp add: q')
  ultimately have 1: "path (heap q') (ptr (front_end q')) (as @ [b]) (Some nn)"
    unfolding path_append by blast
  have 2: "heap q' nn = Some \<lparr>node_val = Uninit, node_next = None\<rparr>"
    using nn(2) by (simp add: q')
  have "map (\<lambda>a. map_option node_val (heap q' a)) as =
          map (\<lambda>a. map_option node_val (heap q a)) as"
    using b_as nn(1) by (intro vals_frame) (auto simp: q')
  then have 3: "map (\<lambda>a. map_option node_val (heap q' a)) (as @ [b]) =
             map (\<lambda>x. Some (Constructed x)) (xs @ [v])"
    using vals by (simp add: q')
  have "b \<notin> set fs'" using b_fs fs'(1) by auto
  then have 4: "path (heap q') (free_list q') fs' None"
    using fs'(3) nn(3) by (simp add: q' path_frame)
  have 5: "distinct ((as @ [b]) @ nn # fs')"
    using dist nn fs'(1,2) by auto
  have "a < brk q'" if "a \<in> set (as @ b # fs)" for a
  proof -
    from bound that have "a < brk q" unfolding list_all_iff by blast
    with q'(4) show ?thesis by simp
  qed
  moreover have "set ((as @ [b]) @ nn # fs') \<subseteq> insert nn (set (as @ b # fs))"
    using fs'(1) by auto
  ultimately have 6: "list_all (\<lambda>a. a < brk q') ((as @ [b]) @ nn # fs')"
    unfolding list_all_iff using nn(4) by blast
  show ?thesis
    unfolding lbq_shape_def using 1 2 3 4 5 6 locks by (simp add: q')
qed

lemma lbq_insert_fail:
  assumes "lbq_shape q xs as b fs" "fs = []" "avail q = 0"
  shows "lbq_insert v q = Some (Inl Null_Dereference, q)"
proof -
  from assms have "free_list q = None" by (simp add: lbq_shape_def)
  with assms(3) show ?thesis by (simp add: lbq_insert_def alloc_node_malloc)
qed

lemma lbq_insert_ok:
  assumes sh: "lbq_shape q xs as b fs" and mem: "fs \<noteq> [] \<or> avail q \<noteq> 0"
  shows "\<exists>q' nn. lbq_insert v q = Some (Inr (), q') \<and>
           lbq_shape q' (xs @ [v]) (as @ [b]) nn (tl fs) \<and> nn \<noteq> b \<and>
           heap q' b = Some \<lparr>node_val = Constructed v, node_next = Some nn\<rparr> \<and>
           ptr (front_end q') = ptr (front_end q) \<and>
           avail q' = (if fs = [] then avail q - 1 else avail q)"
proof -
  from sh have
    bk: "ptr (back_end q) = Some b"
    and hb: "heap q b = Some \<lparr>node_val = Uninit, node_next = None\<rparr>"
    and fl: "path (heap q) (free_list q) fs None"
    and dist: "distinct (as @ b # fs)"
    and bound: "list_all (\<lambda>a. a < brk q) (as @ b # fs)"
    and locks: "\<not> lock (front_end q)" "\<not> lock (back_end q)"
    by (simp_all add: lbq_shape_def)
  from bound have b_brk: "b < brk q" by simp
  show ?thesis
  proof (cases fs)
    case Nil
    with fl have none: "free_list q = None" by simp
    from Nil mem have pos: "avail q \<noteq> 0" by simp
    let ?nn = "brk q"
    let ?q1 = "q\<lparr>brk := brk q + 1, avail := avail q - 1,
                 heap := (heap q)(brk q \<mapsto> \<lparr>node_val = Uninit, node_next = None\<rparr>)\<rparr>"
    let ?q' = "?q1\<lparr>heap := (heap ?q1)(b \<mapsto> \<lparr>node_val = Constructed v, node_next = Some ?nn\<rparr>),
                  back_end := (back_end ?q1)\<lparr>ptr := Some ?nn\<rparr>\<rparr>"
    have a: "alloc_node q = Some (Inr (Some ?nn), ?q1)"
      using pos none by (simp add: alloc_node_malloc)
    have ins: "lbq_insert v q = Some (Inr (), ?q')"
      using b_brk hb bk locks by (intro lbq_insert_seq [OF a]) auto
    have fresh: "?nn \<notin> set as" "?nn \<noteq> b" using bound by (auto simp: list_all_iff)
    have "lbq_shape ?q' (xs @ [v]) (as @ [b]) ?nn []"
      using fresh none by (intro link_shape [OF sh]) simp_all
    with ins Nil fresh show ?thesis by simp
  next
    case (Cons f fs')
    with fl obtain n where f: "free_list q = Some f" "heap q f = Some n"
      and rest: "path (heap q) (node_next n) fs' None"
      by (auto split: option.splits)
    let ?q1 = "q\<lparr>free_list := node_next n,
                 heap := (heap q)(f \<mapsto> \<lparr>node_val = Uninit, node_next = None\<rparr>)\<rparr>"
    let ?q' = "?q1\<lparr>heap := (heap ?q1)(b \<mapsto> \<lparr>node_val = Constructed v, node_next = Some f\<rparr>),
                  back_end := (back_end ?q1)\<lparr>ptr := Some f\<rparr>\<rparr>"
    from bound Cons have f_brk: "f < brk q" by simp
    from dist Cons have nf: "f \<notin> set as" "f \<noteq> b" "f \<notin> set fs'" "distinct fs'" by auto
    have a: "alloc_node q = Some (Inr (Some f), ?q1)"
      using f f_brk by (simp add: alloc_node_recycle)
    have ins: "lbq_insert v q = Some (Inr (), ?q')"
      using b_brk hb bk locks nf by (intro lbq_insert_seq [OF a]) auto
    have "lbq_shape ?q' (xs @ [v]) (as @ [b]) f fs'"
      using nf f_brk rest Cons by (intro link_shape [OF sh]) auto
    with ins Cons nf show ?thesis by simp
  qed
qed

lemma lbq_shape_front:
  assumes "lbq_shape q xs as b fs"
  shows "xs = [] \<Longrightarrow> as = [] \<and> ptr (front_end q) = Some b"
    and "xs = x # xs' \<Longrightarrow>
           \<exists>a as' n. as = a # as' \<and> ptr (front_end q) = Some a \<and> heap q a = Some n \<and>
             node_val n = Constructed x \<and> node_next n \<noteq> None \<and>
             path (heap q) (node_next n) as' (Some b)"
proof -
  from assms have
    p1: "path (heap q) (ptr (front_end q)) as (Some b)"
    and vals: "map (\<lambda>a. map_option node_val (heap q a)) as = map (\<lambda>x. Some (Constructed x)) xs"
    by (simp_all add: lbq_shape_def)
  {
    assume "xs = []"
    with vals have "as = []" by simp
    with p1 show "as = [] \<and> ptr (front_end q) = Some b" by simp
  }
  {
    assume xs: "xs = x # xs'"
    with vals obtain a as' where as: "as = a # as'" by (cases as) auto
    with p1 obtain n where n: "ptr (front_end q) = Some a" "heap q a = Some n"
      "path (heap q) (node_next n) as' (Some b)"
      by (auto split: option.splits)
    from vals xs as n have "node_val n = Constructed x" by simp
    moreover from n(3) have "node_next n \<noteq> None" by (cases as') auto
    ultimately show "\<exists>a as' n. as = a # as' \<and> ptr (front_end q) = Some a \<and> heap q a = Some n \<and>
             node_val n = Constructed x \<and> node_next n \<noteq> None \<and>
             path (heap q) (node_next n) as' (Some b)"
      using as n by blast
  }
qed

lemma lbq_empty_shape:
  assumes "lbq_shape q xs as b fs"
  shows "lbq_empty q = Inr (xs = [])"
proof (cases xs)
  case Nil
  from lbq_shape_front(1) [OF assms Nil] assms Nil show ?thesis
    by (simp add: lbq_empty_def deref_def lbq_shape_def)
next
  case (Cons x xs')
  from lbq_shape_front(2) [OF assms Cons] Cons show ?thesis
    by (auto simp: lbq_empty_def deref_def)
qed

lemma lbq_empty_lock [simp]:
  "lbq_empty (q\<lparr>front_end := (front_end q)\<lparr>lock := l\<rparr>\<rparr>) = lbq_empty q"
  by (simp add: lbq_empty_def deref_def split: option.splits)

lemma pop_locked_seq:
  assumes "ptr (front_end q) = Some a" "heap q a = Some n" "node_val n = Constructed x"
    "node_next n \<noteq> None"
  shows "pop_locked T q =
     Some (if move_throws T Pop_Local x
           then (if pop_noexcept T then (Inl Terminate, q)
                 else (Inl (Ctor_Throw Pop_Local), q\<lparr>front_end := (front_end q)\<lparr>lock := False\<rparr>\<rparr>))
           else (if move_throws T Pop_Return x
                 then Inl (throw_from (pop_noexcept T) Pop_Return) else Inr x,
                 q\<lparr>heap := (heap q)(a \<mapsto> \<lparr>node_val = Moved_From, node_next = free_list q\<rparr>),
                   front_end := \<lparr>lock = False, ptr = node_next n\<rparr>,
                   free_list := Some a\<rparr>))"
  using assms
  by (cases n)
     (auto simp: pop_locked_def lbq_empty_def deref_def move_from_def Let_def spinlock_unlock_def
        free_node_seq)

lemma lbq_try_pop_shape:
  assumes "lbq_shape q xs as b fs"
  shows "lbq_try_pop T q =
     Some (case xs of [] \<Rightarrow> (Inr None, q) | x # _ \<Rightarrow> try_pop_gives T x q)"
proof -
  from assms have locks: "\<not> lock (front_end q)" by (simp add: lbq_shape_def)
  show ?thesis
  proof (cases xs)
    case Nil
    then show ?thesis
      using locks lbq_empty_shape [OF assms]
      by (simp add: lbq_try_pop_def spinlock_lock_free spinlock_unlock_def queue_end_lock_idem)
  next
    case (Cons x xs')
    from lbq_shape_front(2) [OF assms Cons] obtain a as' n where
      f: "ptr (front_end q) = Some a" "heap q a = Some n" "node_val n = Constructed x"
        "node_next n \<noteq> None"
      by blast
    let ?q1 = "q\<lparr>front_end := (front_end q)\<lparr>lock := True\<rparr>\<rparr>"
    have "pop_locked T ?q1 = Some (pop_gives T x q)"
      using f locks
      by (subst pop_locked_seq [where a = a and n = n and x = x])
         (simp_all add: after_lbq_pop_def queue_end_lock_idem pop_gives_def)
    then show ?thesis
      using locks lbq_empty_shape [OF assms] Cons
      by (simp add: lbq_try_pop_def spinlock_lock_free try_pop_gives_def split: prod.splits sum.splits)
  qed
qed

lemma lbq_pop_shape:
  assumes "lbq_shape q xs as b fs"
  shows "lbq_pop T q = (case xs of [] \<Rightarrow> None | x # _ \<Rightarrow> Some (pop_gives T x q))"
proof -
  from assms have locks: "\<not> lock (front_end q)" by (simp add: lbq_shape_def)
  show ?thesis
  proof (cases xs)
    case Nil
    then show ?thesis
      using locks lbq_empty_shape [OF assms]
      by (simp add: lbq_pop_def spinlock_lock_free cv_wait_seq)
  next
    case (Cons x xs')
    from lbq_shape_front(2) [OF assms Cons] obtain a as' n where
      f: "ptr (front_end q) = Some a" "heap q a = Some n" "node_val n = Constructed x"
        "node_next n \<noteq> None"
      by blast
    let ?q1 = "q\<lparr>front_end := (front_end q)\<lparr>lock := True\<rparr>\<rparr>"
    have "pop_locked T ?q1 = Some (pop_gives T x q)"
      using f locks
      by (subst pop_locked_seq [where a = a and n = n and x = x])
         (simp_all add: after_lbq_pop_def queue_end_lock_idem pop_gives_def)
    then show ?thesis
      using locks lbq_empty_shape [OF assms] Cons
      by (simp add: lbq_pop_def spinlock_lock_free cv_wait_seq)
  qed
qed

lemma after_lbq_pop_shape:
  assumes sh: "lbq_shape q (x # xs) as b fs"
  shows "lbq_shape (after_lbq_pop q) xs (tl as) b (hd as # fs)"
proof -
  from lbq_shape_front(2) [OF sh refl] obtain a as' n where
    as: "as = a # as'" and f: "ptr (front_end q) = Some a" "heap q a = Some n"
    and rest: "path (heap q) (node_next n) as' (Some b)"
    by blast
  from sh have
    bk: "ptr (back_end q) = Some b"
    and hb: "heap q b = Some \<lparr>node_val = Uninit, node_next = None\<rparr>"
    and vals: "map (\<lambda>a. map_option node_val (heap q a)) as = map (\<lambda>x. Some (Constructed x)) (x # xs)"
    and fl: "path (heap q) (free_list q) fs None"
    and dist: "distinct (as @ b # fs)"
    and bound: "list_all (\<lambda>a. a < brk q) (as @ b # fs)"
    and locks: "\<not> lock (back_end q)"
    by (simp_all add: lbq_shape_def)
  let ?q' = "after_lbq_pop q"
  let ?h' = "(heap q)(a \<mapsto> \<lparr>node_val = Moved_From, node_next = free_list q\<rparr>)"
  have q': "heap ?q' = ?h'" "ptr (front_end ?q') = node_next n" "free_list ?q' = Some a"
    "back_end ?q' = back_end q" "brk ?q' = brk q" "\<not> lock (front_end ?q')"
    using f by (simp_all add: after_lbq_pop_def)
  from dist as have na: "a \<notin> set as'" "a \<noteq> b" "a \<notin> set fs" by auto
  have 1: "path ?h' (node_next n) as' (Some b)" using rest na(1) by (simp add: path_frame)
  have 2: "?h' b = Some \<lparr>node_val = Uninit, node_next = None\<rparr>" using hb na(2) by simp
  have "map (\<lambda>a. map_option node_val (?h' a)) as' = map (\<lambda>a. map_option node_val (heap q a)) as'"
    using na(1) by (intro vals_frame) auto
  with vals as have 3: "map (\<lambda>a. map_option node_val (?h' a)) as' = map (\<lambda>x. Some (Constructed x)) xs"
    by simp
  have 4: "path ?h' (Some a) (a # fs) None" using fl na(3) by (simp add: path_frame)
  have 5: "distinct (as' @ b # a # fs)" using dist as by auto
  have 6: "list_all (\<lambda>a. a < brk q) (as' @ b # a # fs)" using bound as by auto
  show ?thesis
    unfolding lbq_shape_def q' using 1 2 3 4 5 6 bk locks q'(6) by (simp add: as)
qed

lemma linked_blocking_queue_Inr:
  "linked_blocking_queue n = Some (Inr (), q) \<longleftrightarrow> 0 < n \<and> q = lbq_fresh n"
  by (auto simp: linked_blocking_queue_def alloc_node_malloc lbq_fresh_def)

lemma lbq_fresh_shape: "lbq_shape (lbq_fresh n) [] [] 0 []"
  by (simp add: lbq_shape_def lbq_fresh_def)

lemma lbq_step_pop:
  assumes sh: "lbq_shape q (x # xs) as b fs" and c: "c = LPop \<or> c = LTry_Pop"
    and step: "lbq_step T c q = Some (Inr ev, q')"
  shows "ev = LPop_Threw Pop_Local \<and> q' = q \<or>
         ev = LPopped x \<and> q' = after_lbq_pop q \<or>
         (\<exists>s. ev = LPop_Threw s \<and> s \<noteq> Pop_Local) \<and> q' = after_lbq_pop q"
  using c
proof
  assume "c = LPop"
  with step show ?thesis
    by (auto simp: lbq_pop_shape [OF sh] pop_gives_def throw_from_def
          split: if_splits error.splits)
next
  assume "c = LTry_Pop"
  with step show ?thesis
    by (auto simp: lbq_try_pop_shape [OF sh] try_pop_gives_def pop_gives_def throw_from_def
          split: if_splits error.splits)
qed

lemma lbq_step_inv:
  assumes inv: "lbq_inv q xs" and step: "lbq_step T c q = Some (Inr ev, q')"
  shows "\<exists>xs' ys. lbq_inv q' xs' \<and> xs @ lbq_pushed [ev] = ys @ xs' \<and>
           subseq (lbq_popped [ev]) ys \<and> (keeps_value ev \<longrightarrow> ys = lbq_popped [ev])"
proof -
  from inv obtain as b fs where sh: "lbq_shape q xs as b fs" unfolding lbq_inv_def by blast
  have pop: ?thesis if c: "c = LPop \<or> c = LTry_Pop" and xs: "xs = x # xs'" for x xs'
  proof -
    from after_lbq_pop_shape [OF sh [unfolded xs]]
    have inv': "lbq_inv (after_lbq_pop q) xs'" unfolding lbq_inv_def by blast
    from lbq_step_pop [OF sh [unfolded xs] c step]
    consider "ev = LPop_Threw Pop_Local" "q' = q"
      | "ev = LPopped x" "q' = after_lbq_pop q"
      | s where "ev = LPop_Threw s" "s \<noteq> Pop_Local" "q' = after_lbq_pop q"
      by blast
    then show ?thesis
    proof cases
      case 1
      with inv have "lbq_inv q' xs \<and> xs @ lbq_pushed [ev] = [] @ xs \<and>
          subseq (lbq_popped [ev]) [] \<and> (keeps_value ev \<longrightarrow> [] = lbq_popped [ev])"
        by simp
      then show ?thesis by blast
    next
      case 2
      with inv' xs have "lbq_inv q' xs' \<and> xs @ lbq_pushed [ev] = [x] @ xs' \<and>
          subseq (lbq_popped [ev]) [x] \<and> (keeps_value ev \<longrightarrow> [x] = lbq_popped [ev])"
        by simp
      then show ?thesis by blast
    next
      case 3
      with inv' xs have "lbq_inv q' xs' \<and> xs @ lbq_pushed [ev] = [x] @ xs' \<and>
          subseq (lbq_popped [ev]) [x] \<and> (keeps_value ev \<longrightarrow> [x] = lbq_popped [ev])"
        by simp
      then show ?thesis by blast
    qed
  qed
  show ?thesis
  proof (cases c)
    case (LPush v)
    have mem: "fs \<noteq> [] \<or> avail q \<noteq> 0"
    proof (rule ccontr)
      assume "\<not> (fs \<noteq> [] \<or> avail q \<noteq> 0)"
      then have "lbq_insert v q = Some (Inl Null_Dereference, q)"
        using lbq_insert_fail [OF sh] by simp
      with step LPush show False by (simp add: lbq_push_def)
    qed
    from lbq_insert_ok [OF sh mem, of v] obtain q1 nn where
      ins: "lbq_insert v q = Some (Inr (), q1)"
      and sh1: "lbq_shape q1 (xs @ [v]) (as @ [b]) nn (tl fs)"
      by blast
    from step LPush ins have "q' = q1" "ev = LPushed v"
      by (auto simp: lbq_push_def)
    with sh1 have "lbq_inv q' (xs @ [v]) \<and> xs @ lbq_pushed [ev] = [] @ (xs @ [v]) \<and>
        subseq (lbq_popped [ev]) [] \<and> (keeps_value ev \<longrightarrow> [] = lbq_popped [ev])"
      unfolding lbq_inv_def by auto
    then show ?thesis by blast
  next
    case LPop
    with step sh obtain x xs' where xs: "xs = x # xs'"
      by (cases xs) (auto simp: lbq_pop_shape)
    with LPop show ?thesis by (intro pop) simp_all
  next
    case LTry_Pop
    show ?thesis
    proof (cases xs)
      case Nil
      with step LTry_Pop have "q' = q" "ev = LPop_Refused"
        by (auto simp: lbq_try_pop_shape [OF sh])
      with inv have "lbq_inv q' xs \<and> xs @ lbq_pushed [ev] = [] @ xs \<and>
          subseq (lbq_popped [ev]) [] \<and> (keeps_value ev \<longrightarrow> [] = lbq_popped [ev])"
        by simp
      then show ?thesis by blast
    next
      case (Cons x xs')
      with LTry_Pop show ?thesis by (intro pop) simp_all
    qed
  next
    case LEmpty
    with step have "q' = q" "\<exists>b. ev = LEmpty_Is b"
      by (auto split: sum.splits)
    with inv have "lbq_inv q' xs \<and> xs @ lbq_pushed [ev] = [] @ xs \<and>
        subseq (lbq_popped [ev]) [] \<and> (keeps_value ev \<longrightarrow> [] = lbq_popped [ev])"
      by auto
    then show ?thesis by blast
  qed
qed

lemma lbq_pushed_Cons: "lbq_pushed (ev # evs) = lbq_pushed [ev] @ lbq_pushed evs"
  by (cases ev) simp_all

lemma lbq_popped_Cons: "lbq_popped (ev # evs) = lbq_popped [ev] @ lbq_popped evs"
  by (cases ev) simp_all

lemma lbq_run_inv:
  assumes "lbq_inv q xs" "lbq_run T cs q = Some (Inr evs, q')"
  shows "\<exists>xs' ys. lbq_inv q' xs' \<and> xs @ lbq_pushed evs = ys @ xs' \<and>
           subseq (lbq_popped evs) ys \<and> (list_all keeps_value evs \<longrightarrow> ys = lbq_popped evs)"
  using assms
proof (induction cs arbitrary: q xs evs)
  case Nil
  then have "lbq_inv q' xs \<and> xs @ lbq_pushed evs = [] @ xs \<and>
      subseq (lbq_popped evs) [] \<and> (list_all keeps_value evs \<longrightarrow> [] = lbq_popped evs)"
    by auto
  then show ?case by blast
next
  case (Cons c cs)
  from Cons.prems(2) obtain ev q1 evs1 where
    s1: "lbq_step T c q = Some (Inr ev, q1)"
    and s2: "lbq_run T cs q1 = Some (Inr evs1, q')" and evs: "evs = ev # evs1"
    by (auto split: option.splits sum.splits)
  from lbq_step_inv [OF Cons.prems(1) s1] obtain xs1 ys1 where
    inv1: "lbq_inv q1 xs1" and eq1: "xs @ lbq_pushed [ev] = ys1 @ xs1"
    and sub1: "subseq (lbq_popped [ev]) ys1"
    and keep1: "keeps_value ev \<longrightarrow> ys1 = lbq_popped [ev]" by blast
  from Cons.IH [OF inv1 s2] obtain xs' ys2 where
    inv': "lbq_inv q' xs'" and eq2: "xs1 @ lbq_pushed evs1 = ys2 @ xs'"
    and sub2: "subseq (lbq_popped evs1) ys2"
    and keep2: "list_all keeps_value evs1 \<longrightarrow> ys2 = lbq_popped evs1" by blast
  have eq: "xs @ lbq_pushed (ev # evs1) = (ys1 @ ys2) @ xs'"
    using eq1 eq2 by (metis append.assoc lbq_pushed_Cons)
  have sub: "subseq (lbq_popped (ev # evs1)) (ys1 @ ys2)"
    using sub1 sub2 by (subst lbq_popped_Cons) (rule list_emb_append_mono)
  have keep: "list_all keeps_value (ev # evs1) \<longrightarrow> ys1 @ ys2 = lbq_popped (ev # evs1)"
    using keep1 keep2 by (subst lbq_popped_Cons) simp
  from inv' eq sub keep show ?case unfolding evs by blast
qed

lemma lbq_reachable_inv:
  assumes "linked_blocking_queue n = Some (Inr (), l0)"
    "lbq_run T cs l0 = Some (Inr evs, q)"
  shows "\<exists>xs ys. lbq_inv q xs \<and> lbq_pushed evs = ys @ xs \<and>
           subseq (lbq_popped evs) ys \<and> (list_all keeps_value evs \<longrightarrow> ys = lbq_popped evs)"
proof -
  from assms(1) have "l0 = lbq_fresh n" by (simp add: linked_blocking_queue_Inr)
  then have "lbq_inv l0 []" unfolding lbq_inv_def using lbq_fresh_shape by blast
  from lbq_run_inv [OF this assms(2)] show ?thesis by simp
qed

lemma lbq_run_append:
  assumes "lbq_run T (cs1 @ cs2) q = Some (Inr evs, q')"
  shows "\<exists>evs1 evs2 q1. lbq_run T cs1 q = Some (Inr evs1, q1) \<and>
           lbq_run T cs2 q1 = Some (Inr evs2, q') \<and> evs = evs1 @ evs2"
  using assms
proof (induction cs1 arbitrary: q evs)
  case Nil
  then show ?case by simp
next
  case (Cons c cs1)
  from Cons.prems obtain ev q1 evs' where
    s1: "lbq_step T c q = Some (Inr ev, q1)"
    and s2: "lbq_run T (cs1 @ cs2) q1 = Some (Inr evs', q')" and evs: "evs = ev # evs'"
    by (auto split: option.splits sum.splits)
  from Cons.IH [OF s2] obtain evs1 evs2 q2 where
    "lbq_run T cs1 q1 = Some (Inr evs1, q2)" "lbq_run T cs2 q2 = Some (Inr evs2, q')"
    "evs' = evs1 @ evs2"
    by blast
  with s1 evs show ?case by simp
qed


lemma lbq_pushed_alternate [simp]: "lbq_pushed (lbq_alternate_events vs) = vs"
  by (induction vs) (simp_all add: lbq_alternate_events_def)

lemma lbq_popped_alternate [simp]: "lbq_popped (lbq_alternate_events vs) = vs"
  by (induction vs) (simp_all add: lbq_alternate_events_def)

lemma lbq_nonempty_front:
  assumes "lbq_shape q xs as b fs" "lbq_empty q = Inr False"
  obtains a as' nd x xs' where "xs = x # xs'" "as = a # as'" "ptr (front_end q) = Some a"
    "heap q a = Some nd" "node_val nd = Constructed x" "node_next nd \<noteq> None"
proof -
  from assms have "xs \<noteq> []" by (simp add: lbq_empty_shape)
  then obtain x xs' where xs: "xs = x # xs'" by (cases xs) auto
  from lbq_shape_front(2) [OF assms(1) xs] xs that show ?thesis by blast
qed

text \<open>
  An exception in \<^verbatim>\<open>pop\<close> and \<^verbatim>\<open>try_pop\<close>, in every state the queue reaches: thrown
  by the move out of the node (line 199), it leaves the queue as it was if
  \<^verbatim>\<open>pop(std::unique_lock<lock_t>)\<close> is not \<^verbatim>\<open>noexcept\<close>, and ends the program if it is; thrown
  by a later move, it comes after the node has been detached.
\<close>

lemma pop_exception:
  assumes "linked_blocking_queue n = Some (Inr (), l0)" "lbq_run T cs l0 = Some (Inr evs, q)"
    and "lbq_empty q = Inr False"
  shows "\<exists>a nd v. ptr (front_end q) = Some a \<and> heap q a = Some nd \<and>
           node_val nd = Constructed v \<and>
           (move_throws T' Pop_Local v \<and> \<not> pop_noexcept T' \<longrightarrow>
              lbq_try_pop T' q = Some (Inl (Ctor_Throw Pop_Local), q) \<and>
              lbq_pop T' q = Some (Inl (Ctor_Throw Pop_Local), q)) \<and>
           (move_throws T' Pop_Local v \<and> pop_noexcept T' \<longrightarrow>
              (\<exists>q'. lbq_try_pop T' q = Some (Inl Terminate, q') \<and>
                    lbq_pop T' q = Some (Inl Terminate, q'))) \<and>
           (pop_moves T' v \<and> \<not> try_pop_moves T' v \<and> \<not> nothrow_move_constructible T' \<longrightarrow>
              (\<exists>s. lbq_try_pop T' q = Some (Inl (Ctor_Throw s), after_lbq_pop q))) \<and>
           (\<not> move_throws T' Pop_Local v \<and> move_throws T' Pop_Return v \<and> \<not> pop_noexcept T' \<longrightarrow>
              lbq_pop T' q = Some (Inl (Ctor_Throw Pop_Return), after_lbq_pop q)) \<and>
           lbq_pop nothrow_type q = Some (Inr v, after_lbq_pop q)"
proof -
  from lbq_reachable_inv [OF assms(1,2)] obtain xs as b fs where sh: "lbq_shape q xs as b fs"
    unfolding lbq_inv_def by blast
  from sh assms(3) obtain a as' nd x xs' where
    f: "xs = x # xs'" "ptr (front_end q) = Some a" "heap q a = Some nd"
      "node_val nd = Constructed x"
    by (rule lbq_nonempty_front)
  then show ?thesis
    by (auto simp: lbq_try_pop_shape [OF sh] lbq_pop_shape [OF sh] pop_gives_def
          try_pop_gives_def pop_moves_def try_pop_moves_def throw_from_def nothrow_type_def)
qed

section \<open>Claims\<close>

text \<open>
  C1. The constructor of the bounded queue asserts that the capacity exceeds 1 and that
  it is even, not that it is a power of two: capacity 6, which is no power of two, is
  accepted, and the queue is built. Tickets 0 and 2 then share slot 0 of it, although the
  slot of a ticket is meant to be the ticket modulo the capacity, and after two pushes
  \<^verbatim>\<open>try_push\<close> is refused although four of the six slots have never been written.
\<close>

theorem C1_capacity_six_accepted:
  "array_blocking_queue True 6 = Some (Inr (fresh 6 :: nat array_blocking_queue)) \<and>
   \<not> valid_capacity 6 \<and>
   get_idx (fresh 6 :: nat array_blocking_queue) 2 = get_idx (fresh 6 :: nat array_blocking_queue) 0 \<and>
   map_option fst (run [Push 1, Push 2, Try_Push 3] (fresh 6 :: nat array_blocking_queue)) =
     Some (Inr [Pushed 1, Pushed 2, Push_Refused 3])"
proof -
  have "\<not> valid_capacity 6"
  proof
    assume "valid_capacity 6"
    then obtain n where n: "unat (6 :: size_t) = 2 ^ n" by (rule valid_capacity_unat)
    then have six: "(6::nat) = 2 ^ n" by simp
    show False
    proof (cases "n < 3")
      case True
      then consider "n = 0" | "n = 1" | "n = 2" by linarith
      then show False using six by cases simp_all
    next
      case False
      then have "(2::nat) ^ 3 \<le> 2 ^ n" by (intro power_increasing) simp_all
      with six show False by simp
    qed
  qed
  moreover have "array_blocking_queue True 6 = Some (Inr (fresh 6 :: nat array_blocking_queue))"
    by (simp add: array_blocking_queue_eq)
  moreover have "get_idx (fresh 6 :: nat array_blocking_queue) 2 =
      get_idx (fresh 6 :: nat array_blocking_queue) 0"
    by (simp add: get_idx_def fresh_def)
  moreover have "map_option fst (run [Push 1, Push 2, Try_Push 3] (fresh 6 :: nat array_blocking_queue)) =
      Some (Inr [Pushed 1, Pushed 2, Push_Refused 3])"
    by code_simp
  ultimately show ?thesis by blast
qed

text \<open>
  C2. When \<^verbatim>\<open>malloc\<close> returns null, the constructor of the bounded queue ends with
  \<^verbatim>\<open>std::bad_alloc\<close>. The unbounded queue does not look at what \<^verbatim>\<open>malloc\<close> returned:
  \<^verbatim>\<open>alloc_node\<close> passes the null pointer to \<^verbatim>\<open>memset\<close>, in the constructor (no memory
  at all) and in \<^verbatim>\<open>push\<close> (a queue built with the only node there was, and an empty free
  list). No allocation failure reaches the caller.
\<close>

theorem C2_node_allocation_unchecked:
  "array_blocking_queue False 2 = (Some (Inl Bad_Alloc) :: (error + nat array_blocking_queue) option) \<and>
   map_option fst (linked_blocking_queue 0 :: ((error + unit) \<times> nat linked_blocking_queue) option) =
     Some (Inl Null_Dereference) \<and>
   lbq_push (5::nat) (lbq_fresh 1) = Some (Inl Null_Dereference, lbq_fresh 1)"
proof -
  have "lbq_insert (5::nat) (lbq_fresh 1) = Some (Inl Null_Dereference, lbq_fresh 1)"
    by (rule lbq_insert_fail [OF lbq_fresh_shape]) (simp_all add: lbq_fresh_def)
  then show ?thesis
    by (simp add: array_blocking_queue_eq linked_blocking_queue_def alloc_node_malloc
        lbq_push_def)
qed



text \<open>
  C4. The bounded queue with a valid capacity \<open>c\<close>, in any state it reaches in which it is
  empty (\<open>head = tail\<close>): any \<open>c\<close> calls of the push family (\<^verbatim>\<open>push\<close> or \<^verbatim>\<open>try_push\<close>, in any
  mix) all return and succeed; then \<^verbatim>\<open>try_push\<close> returns \<^verbatim>\<open>false\<close> and leaves the queue as
  it is; a pop (\<^verbatim>\<open>pop\<close> or \<^verbatim>\<open>try_pop\<close>) then succeeds, and after it \<^verbatim>\<open>try_push\<close> returns
  \<^verbatim>\<open>true\<close>. The tickets are 64 bits wide: the values popped so far and the \<open>c\<close> new ones
  are fewer than \<open>2 ^ 64\<close> (none when the queue has just been constructed).
\<close>

theorem C4_full_then_pop_then_push:
  assumes "array_blocking_queue p c = Some (Inr q0)" "valid_capacity c"
    and "run pre q0 = Some (Inr evs, q)" "head q = tail q"
    and "length (popped evs) + unat c < 2 ^ 64"
    and "list_all is_push cs" "length cs = unat c"
  shows "\<exists>q1. run cs q = Some (Inr (map Pushed (map pushed_value cs)), q1) \<and>
           try_push w q1 = Some (Inr False, q1) \<and>
           (\<exists>x q2. pop q1 = Some (Inr x, q2) \<and> try_pop q1 = Some (Inr (Some x), q2) \<and>
              (\<exists>q3. try_push w' q2 = Some (Inr True, q3)))"
proof -
  let ?N = "length (popped evs)"
  from reachable_at [OF assms(1,2,3)] obtain xs where
    inv: "abq_at q ?N xs" and cap: "capacity q = c"
    by auto
  from inv assms(4) have xs: "xs = []" by (simp add: abq_at_empty_iff)
  have "length xs + length cs \<le> unat (capacity q)" by (simp add: xs cap assms(7))
  moreover have "?N + length xs + length cs \<le> 2 ^ 64" using assms(5,7) by (simp add: xs)
  ultimately obtain q1 where
    run: "run cs q = Some (Inr (map Pushed (map pushed_value cs)), q1)"
    and inv1: "abq_at q1 ?N (map pushed_value cs)" and cap1: "capacity q1 = c"
    using pushes_fill [OF inv assms(6)] by (auto simp: xs cap)
  have full: "length (map pushed_value cs) = unat (capacity q1)" by (simp add: cap1 assms(7))
  have ne: "map pushed_value cs \<noteq> []"
    using full valid_capacity_ge2 [OF assms(2)] cap1 by auto
  have refused: "try_push w q1 = Some (Inr False, q1)"
    using full by (simp add: try_push_def try_emplace_at [OF inv1] can_push_def)
  let ?x = "hd (map pushed_value cs)" and ?q2 = "after_pop q1"
  have pop: "pop q1 = Some (Inr ?x, ?q2)" using ne by (simp add: pop_at [OF inv1])
  have try_pop: "try_pop q1 = Some (Inr (Some ?x), ?q2)"
    using ne by (simp add: try_pop_at [OF inv1])
  have inv2: "abq_at ?q2 (Suc ?N) (tl (map pushed_value cs))"
    using inv1 ne by (rule after_pop_at)
  have cap2: "capacity ?q2 = c" by (simp add: after_pop_def cap1)
  have l2: "Suc (length (tl (map pushed_value cs))) = unat c"
    using full ne cap1 by (cases cs) simp_all
  then have "length (tl (map pushed_value cs)) < unat c" by simp
  moreover have "Suc ?N + length (tl (map pushed_value cs)) < 2 ^ 64"
    using assms(5) l2 by simp
  ultimately have "can_push (unat c) (Suc ?N) (length (tl (map pushed_value cs)))"
    using assms(2) by (intro can_push_no_wrap)
  then have "try_push w' ?q2 = Some (Inr True, after_push ?q2 w')"
    by (simp add: try_push_def try_emplace_at [OF inv2] cap2)
  with run refused pop try_pop show ?thesis by blast
qed

theorem C4_witness:
  "array_blocking_queue True 2 =
     Some (Inr \<lparr>capacity = 2, array = [\<lparr>turn = 0, val = Uninit :: nat storage\<rparr>,
                  \<lparr>turn = 0, val = Uninit\<rparr>], head = 0, tail = 0\<rparr>) \<and>
   valid_capacity 2 \<and>
   (\<exists>q1. run [Push 7, Try_Push 8]
           \<lparr>capacity = 2, array = [\<lparr>turn = 2, val = Uninit\<rparr>, \<lparr>turn = 0, val = Uninit\<rparr>],
            head = 1, tail = 1\<rparr> = Some (Inr [Pushed (7::nat), Pushed 8], q1) \<and>
         try_push 9 q1 = Some (Inr False, q1) \<and>
         (\<exists>x q2. pop q1 = Some (Inr x, q2) \<and> try_pop q1 = Some (Inr (Some x), q2) \<and>
            (\<exists>q3. try_push 9 q2 = Some (Inr True, q3))))"
proof -
  let ?fresh = "\<lparr>capacity = 2, array = [\<lparr>turn = 0, val = Uninit :: nat storage\<rparr>,
                \<lparr>turn = 0, val = Uninit\<rparr>], head = 0, tail = 0\<rparr>"
  let ?empty = "\<lparr>capacity = 2, array = [\<lparr>turn = 2, val = Uninit :: nat storage\<rparr>,
               \<lparr>turn = 0, val = Uninit\<rparr>], head = 1, tail = 1\<rparr>"
  have h1: "array_blocking_queue True 2 = Some (Inr ?fresh)" by code_simp
  have h2: "valid_capacity 2" by code_simp
  have h3: "run [Push 5, Pop] ?fresh = Some (Inr [Pushed 5, Popped 5], ?empty)" by code_simp
  have h4: "head ?empty = tail ?empty" by simp
  have h5: "length (popped [Pushed (5::nat), Popped 5]) + unat (2::size_t) < 2 ^ 64" by simp
  have h6: "list_all is_push [Push (7::nat), Try_Push 8]" by simp
  have h7: "length [Push (7::nat), Try_Push 8] = unat (2::size_t)" by simp
  from C4_full_then_pop_then_push [OF h1 h2 h3 h4 h5 h6 h7, of 9 9] h1 h2
  show ?thesis by simp
qed


text \<open>
  C5. The sentinel at the tail. In every state the unbounded queue reaches, \<^verbatim>\<open>front_\<close> and
  \<^verbatim>\<open>back_\<close> refer to nodes; the node at \<^verbatim>\<open>back_\<close> is zeroed memory that holds no value and
  whose \<^verbatim>\<open>next_\<close> is null; \<^verbatim>\<open>next_\<close> of the front node is null exactly when \<^verbatim>\<open>front_\<close> and
  \<^verbatim>\<open>back_\<close> refer to the same node, and (no value having been lost to an exception thrown
  after its node was detached) exactly when everything pushed has been popped;
  \<^verbatim>\<open>empty()\<close> returns whether it is null. A push returns; unless \<^verbatim>\<open>malloc\<close> gave it a null
  pointer, it has constructed the value in the node \<^verbatim>\<open>back_\<close> referred to, linked that node
  to another node, zeroed, and made \<^verbatim>\<open>back_\<close> refer to this one, leaving \<^verbatim>\<open>front_\<close> as it
  was.
\<close>

theorem C5_sentinel_at_tail:
  assumes "linked_blocking_queue n = Some (Inr (), l0)" "lbq_run T cs l0 = Some (Inr evs, q)"
  shows "\<exists>f b nd. ptr (front_end q) = Some f \<and> ptr (back_end q) = Some b \<and>
           heap q f = Some nd \<and>
           heap q b = Some \<lparr>node_val = Uninit, node_next = None\<rparr> \<and>
           (node_next nd = None \<longleftrightarrow> f = b) \<and>
           (list_all keeps_value evs \<longrightarrow>
              (node_next nd = None \<longleftrightarrow> lbq_popped evs = lbq_pushed evs)) \<and>
           lbq_empty q = Inr (node_next nd = None) \<and>
           (\<forall>v. \<exists>r q'. lbq_push v q = Some (r, q') \<and> (r = Inr () \<or> r = Inl Null_Dereference) \<and>
              (r = Inr () \<longrightarrow>
                 (\<exists>nn. nn \<noteq> b \<and>
                    heap q' b = Some \<lparr>node_val = Constructed v, node_next = Some nn\<rparr> \<and>
                    heap q' nn = Some \<lparr>node_val = Uninit, node_next = None\<rparr> \<and>
                    ptr (back_end q') = Some nn \<and> ptr (front_end q') = Some f)))"
proof -
  from lbq_reachable_inv [OF assms] obtain xs ys as b fs where
    sh: "lbq_shape q xs as b fs" and eq0: "lbq_pushed evs = ys @ xs"
    and keep: "list_all keeps_value evs \<longrightarrow> ys = lbq_popped evs"
    unfolding lbq_inv_def by blast
  from eq0 keep have eq: "list_all keeps_value evs \<longrightarrow> lbq_pushed evs = lbq_popped evs @ xs"
    by simp
  from sh have bk: "ptr (back_end q) = Some b"
    and hb: "heap q b = Some \<lparr>node_val = Uninit, node_next = None\<rparr>"
    and dist: "distinct (as @ b # fs)"
    by (simp_all add: lbq_shape_def)
  have push: "\<exists>r q'. lbq_push v q = Some (r, q') \<and> (r = Inr () \<or> r = Inl Null_Dereference) \<and>
              (r = Inr () \<longrightarrow>
                 (\<exists>nn. nn \<noteq> b \<and>
                    heap q' b = Some \<lparr>node_val = Constructed v, node_next = Some nn\<rparr> \<and>
                    heap q' nn = Some \<lparr>node_val = Uninit, node_next = None\<rparr> \<and>
                    ptr (back_end q') = Some nn \<and> ptr (front_end q') = ptr (front_end q)))" for v
  proof (cases "fs \<noteq> [] \<or> avail q \<noteq> 0")
    case True
    from lbq_insert_ok [OF sh True, of v] obtain q' nn where
      "lbq_insert v q = Some (Inr (), q')" "lbq_shape q' (xs @ [v]) (as @ [b]) nn (tl fs)"
      "nn \<noteq> b" "heap q' b = Some \<lparr>node_val = Constructed v, node_next = Some nn\<rparr>"
      "ptr (front_end q') = ptr (front_end q)"
      by blast
    then show ?thesis by (auto simp: lbq_push_def lbq_shape_def)
  next
    case False
    then show ?thesis using lbq_insert_fail [OF sh, of v] by (simp add: lbq_push_def)
  qed
  show ?thesis
  proof (cases xs)
    case Nil
    from lbq_shape_front(1) [OF sh Nil] have "ptr (front_end q) = Some b" by simp
    with bk hb eq Nil lbq_empty_shape [OF sh] push show ?thesis by auto
  next
    case (Cons x xs')
    from lbq_shape_front(2) [OF sh Cons] obtain a as' nd where
      f: "as = a # as'" "ptr (front_end q) = Some a" "heap q a = Some nd"
        "node_next nd \<noteq> None"
      by blast
    from dist f(1) have "a \<noteq> b" by auto
    with bk hb eq Cons lbq_empty_shape [OF sh] push f show ?thesis by auto
  qed
qed

theorem C5_witness:
  "\<exists>q f b nd.
     lbq_run nothrow_type [LPush 1, LPush 2, LPop] (lbq_fresh 3) =
       Some (Inr [LPushed (1::nat), LPushed 2, LPopped 1], q) \<and>
     ptr (front_end q) = Some f \<and> ptr (back_end q) = Some b \<and> heap q f = Some nd \<and>
     heap q b = Some \<lparr>node_val = Uninit, node_next = None\<rparr> \<and>
     node_next nd \<noteq> None \<and> f \<noteq> b \<and> lbq_empty q = Inr False \<and>
     (\<exists>q' nn. lbq_push 3 q = Some (Inr (), q') \<and> nn \<noteq> b \<and>
        heap q' b = Some \<lparr>node_val = Constructed 3, node_next = Some nn\<rparr> \<and>
        heap q' nn = Some \<lparr>node_val = Uninit, node_next = None\<rparr> \<and>
        ptr (back_end q') = Some nn \<and> ptr (front_end q') = Some f)"
proof -
  let ?cs = "[LPush (1::nat), LPush 2, LPop]"
  let ?evs = "[LPushed (1::nat), LPushed 2, LPopped 1]"
  have h1: "linked_blocking_queue 3 = Some (Inr (), lbq_fresh 3 :: nat linked_blocking_queue)"
    by (simp add: linked_blocking_queue_Inr)
  have "map_option (\<lambda>(r, q). (r, map_option fst (lbq_push 3 q)))
          (lbq_run nothrow_type ?cs (lbq_fresh 3)) = Some (Inr ?evs, Some (Inr ()))"
    by code_simp
  then obtain q where h2: "lbq_run nothrow_type ?cs (lbq_fresh 3) = Some (Inr ?evs, q)"
    and p: "map_option fst (lbq_push 3 q) = Some (Inr ())"
    by (cases "lbq_run nothrow_type ?cs (lbq_fresh 3)") auto
  from C5_sentinel_at_tail [OF h1 h2] obtain f b nd where
    s: "ptr (front_end q) = Some f \<and> ptr (back_end q) = Some b \<and>
           heap q f = Some nd \<and>
           heap q b = Some \<lparr>node_val = Uninit, node_next = None\<rparr> \<and>
           (node_next nd = None \<longleftrightarrow> f = b) \<and>
           (list_all keeps_value ?evs \<longrightarrow>
              (node_next nd = None \<longleftrightarrow> lbq_popped ?evs = lbq_pushed ?evs)) \<and>
           lbq_empty q = Inr (node_next nd = None) \<and>
           (\<forall>v. \<exists>r q'. lbq_push v q = Some (r, q') \<and> (r = Inr () \<or> r = Inl Null_Dereference) \<and>
              (r = Inr () \<longrightarrow>
                 (\<exists>nn. nn \<noteq> b \<and>
                    heap q' b = Some \<lparr>node_val = Constructed v, node_next = Some nn\<rparr> \<and>
                    heap q' nn = Some \<lparr>node_val = Uninit, node_next = None\<rparr> \<and>
                    ptr (back_end q') = Some nn \<and> ptr (front_end q') = Some f)))"
    by (elim exE) (rule that)
  from s have "list_all keeps_value ?evs \<longrightarrow>
      (node_next nd = None) = (lbq_popped ?evs = lbq_pushed ?evs)" by (elim conjE)
  then have n: "node_next nd \<noteq> None" by simp
  from s have "(node_next nd = None) = (f = b)" by (elim conjE)
  with n have fb: "f \<noteq> b" by simp
  from s have "lbq_empty q = Inr (node_next nd = None)" by (elim conjE)
  with n have em: "lbq_empty q = Inr False" by simp
  note ne = n fb em
  from s have "\<exists>r q'. lbq_push 3 q = Some (r, q') \<and> (r = Inr () \<or> r = Inl Null_Dereference) \<and>
              (r = Inr () \<longrightarrow>
                 (\<exists>nn. nn \<noteq> b \<and>
                    heap q' b = Some \<lparr>node_val = Constructed 3, node_next = Some nn\<rparr> \<and>
                    heap q' nn = Some \<lparr>node_val = Uninit, node_next = None\<rparr> \<and>
                    ptr (back_end q') = Some nn \<and> ptr (front_end q') = Some f))"
    by (elim conjE allE)
  then obtain r q' where pq: "lbq_push 3 q = Some (r, q')"
    and pr: "r = Inr () \<longrightarrow>
                 (\<exists>nn. nn \<noteq> b \<and>
                    heap q' b = Some \<lparr>node_val = Constructed 3, node_next = Some nn\<rparr> \<and>
                    heap q' nn = Some \<lparr>node_val = Uninit, node_next = None\<rparr> \<and>
                    ptr (back_end q') = Some nn \<and> ptr (front_end q') = Some f)"
    by (elim exE conjE) (rule that)
  from p pq have r: "r = Inr ()" by simp
  with pr have "\<exists>nn. nn \<noteq> b \<and>
                    heap q' b = Some \<lparr>node_val = Constructed 3, node_next = Some nn\<rparr> \<and>
                    heap q' nn = Some \<lparr>node_val = Uninit, node_next = None\<rparr> \<and>
                    ptr (back_end q') = Some nn \<and> ptr (front_end q') = Some f"
    by simp
  then obtain nn where "nn \<noteq> b"
    "heap q' b = Some \<lparr>node_val = Constructed 3, node_next = Some nn\<rparr>"
    "heap q' nn = Some \<lparr>node_val = Uninit, node_next = None\<rparr>"
    "ptr (back_end q') = Some nn" "ptr (front_end q') = Some f"
    by (elim exE conjE) (rule that)
  with h2 s ne pq r show ?thesis by (intro exI [of _ q] exI [of _ f] exI [of _ b] exI [of _ nd] exI [of _ q'] exI [of _ nn] conjI) simp_all
qed

text \<open>
  C6. \<^verbatim>\<open>try_pop\<close> on an empty queue. In every state the bounded queue (valid capacity)
  reaches with \<open>head = tail\<close>, and in every state the unbounded queue reaches in which
  \<^verbatim>\<open>empty()\<close> holds, \<^verbatim>\<open>try_pop\<close> returns, with no value, and the queue is as it was before
  the call.
\<close>

theorem C6_try_pop_on_empty:
  assumes "array_blocking_queue p c = Some (Inr q0)" "valid_capacity c"
    and "run cs q0 = Some (r, q)" "head q = tail q"
    and "linked_blocking_queue n = Some (Inr (), l0)" "lbq_run T ls l0 = Some (Inr evs, l)"
    and "lbq_empty l = Inr True"
  shows "try_pop q = Some (Inr None, q) \<and> lbq_try_pop T' l = Some (Inr None, l)"
proof -
  from reachable_at [OF assms(1-3)] obtain N xs where inv: "abq_at q N xs" by blast
  with assms(4) have "xs = []" by (simp add: abq_at_empty_iff)
  then have 1: "try_pop q = Some (Inr None, q)" by (simp add: try_pop_at [OF inv])
  from lbq_reachable_inv [OF assms(5,6)] obtain ys as b fs where sh: "lbq_shape l ys as b fs"
    unfolding lbq_inv_def by blast
  with assms(7) have "ys = []" by (simp add: lbq_empty_shape)
  then have "lbq_try_pop T' l = Some (Inr None, l)" by (simp add: lbq_try_pop_shape [OF sh])
  with 1 show ?thesis by simp
qed

theorem C6_witness:
  "\<exists>q l. run [Push 1, Pop] \<lparr>capacity = 2,
        array = [\<lparr>turn = 0, val = Uninit :: nat storage\<rparr>, \<lparr>turn = 0, val = Uninit\<rparr>],
        head = 0, tail = 0\<rparr> = Some (Inr [Pushed 1, Popped 1], q) \<and>
     head q = tail q \<and> try_pop q = Some (Inr None, q) \<and>
     lbq_run nothrow_type [LPush 1, LPop] (lbq_fresh 2) = Some (Inr [LPushed (1::nat), LPopped 1], l) \<and>
     lbq_empty l = Inr True \<and> lbq_try_pop \<lparr>nothrow_copy_constructible = False, nothrow_move_constructible = False,
         move_throws = (\<lambda>_ _. True)\<rparr> l = Some (Inr None, l)"
proof -
  let ?fresh = "\<lparr>capacity = 2, array = [\<lparr>turn = 0, val = Uninit :: nat storage\<rparr>,
                  \<lparr>turn = 0, val = Uninit\<rparr>], head = 0, tail = 0\<rparr>"
  let ?drained = "\<lparr>capacity = 2, array = [\<lparr>turn = 2, val = Uninit :: nat storage\<rparr>,
                  \<lparr>turn = 0, val = Uninit\<rparr>], head = 1, tail = 1\<rparr>"
  have h1: "array_blocking_queue True 2 = Some (Inr ?fresh)" by code_simp
  have h2: "valid_capacity 2" by code_simp
  have h4: "run [Push 1, Pop] ?fresh = Some (Inr [Pushed 1, Popped 1], ?drained)" by code_simp
  have h5: "head ?drained = tail ?drained" by simp
  have h6: "linked_blocking_queue 2 = Some (Inr (), lbq_fresh 2 :: nat linked_blocking_queue)"
    by (simp add: linked_blocking_queue_Inr)
  have "map_option (\<lambda>(r, l). (r, lbq_empty l))
          (lbq_run nothrow_type [LPush 1, LPop] (lbq_fresh 2)) =
        Some (Inr [LPushed (1::nat), LPopped 1], Inr True)"
    by code_simp
  then obtain l where
    h7: "lbq_run nothrow_type [LPush 1, LPop] (lbq_fresh 2) = Some (Inr [LPushed (1::nat), LPopped 1], l)"
    and h8: "lbq_empty l = Inr True"
    by (cases "lbq_run nothrow_type [LPush (1::nat), LPop] (lbq_fresh 2)") auto
  from C6_try_pop_on_empty [OF h1 h2 h4 h5 h6 h7 h8, of "\<lparr>nothrow_copy_constructible = False, nothrow_move_constructible = False,
         move_throws = (\<lambda>_ _. True)\<rparr>"] h4 h5 h7 h8
  show ?thesis by blast
qed

text \<open>
  C7. In every state the unbounded queue reaches in which it is not empty, the front node
  holds a value \<open>v\<close>; unless a move of \<open>v\<close> throws, \<^verbatim>\<open>pop\<close> returns \<open>v\<close>, and so does
  \<^verbatim>\<open>try_pop\<close> unless one of its own moves of \<open>v\<close> throws, and afterwards the node is the
  head of the free list, its \<^verbatim>\<open>next_\<close> is the head the free list had before, its storage
  holds the moved-from object, whose destructor has not run, and \<^verbatim>\<open>front_\<close> refers to what
  was the node's \<^verbatim>\<open>next_\<close>.
\<close>

theorem C7_pop_recycles_node:
  assumes "linked_blocking_queue n = Some (Inr (), l0)" "lbq_run T cs l0 = Some (Inr evs, q)"
    and "lbq_empty q = Inr False"
  shows "\<exists>a nd v. ptr (front_end q) = Some a \<and> heap q a = Some nd \<and>
           node_val nd = Constructed v \<and>
           (pop_moves T' v \<longrightarrow>
              (\<exists>q'. lbq_pop T' q = Some (Inr v, q') \<and>
                    (try_pop_moves T' v \<longrightarrow> lbq_try_pop T' q = Some (Inr (Some v), q')) \<and>
                    free_list q' = Some a \<and>
                    heap q' a = Some \<lparr>node_val = Moved_From, node_next = free_list q\<rparr> \<and>
                    ptr (front_end q') = node_next nd))"
proof -
  from lbq_reachable_inv [OF assms(1,2)] obtain xs as b fs where sh: "lbq_shape q xs as b fs"
    unfolding lbq_inv_def by blast
  from sh assms(3) obtain a as' nd x xs' where
    f: "xs = x # xs'" "ptr (front_end q) = Some a" "heap q a = Some nd"
      "node_val nd = Constructed x"
    by (rule lbq_nonempty_front)
  have "free_list (after_lbq_pop q) = Some a"
    "heap (after_lbq_pop q) a = Some \<lparr>node_val = Moved_From, node_next = free_list q\<rparr>"
    "ptr (front_end (after_lbq_pop q)) = node_next nd"
    using f by (simp_all add: after_lbq_pop_def)
  with f show ?thesis
    by (auto simp: lbq_try_pop_shape [OF sh] lbq_pop_shape [OF sh] pop_gives_def
          try_pop_gives_def pop_moves_def try_pop_moves_def)
qed

theorem C7_witness:
  "\<exists>q a nd q'.
     lbq_run nothrow_type [LPush 1, LPush 2] (lbq_fresh 3) = Some (Inr [LPushed (1::nat), LPushed 2], q) \<and>
     lbq_empty q = Inr False \<and>
     ptr (front_end q) = Some a \<and> heap q a = Some nd \<and> node_val nd = Constructed 1 \<and>
     lbq_pop nothrow_type q = Some (Inr 1, q') \<and>
     lbq_try_pop nothrow_type q = Some (Inr (Some 1), q') \<and>
     free_list q' = Some a \<and>
     heap q' a = Some \<lparr>node_val = Moved_From, node_next = free_list q\<rparr> \<and>
     ptr (front_end q') = node_next nd"
proof -
  let ?cs = "[LPush (1::nat), LPush 2]"
  let ?evs = "[LPushed (1::nat), LPushed 2]"
  have h1: "linked_blocking_queue 3 = Some (Inr (), lbq_fresh 3 :: nat linked_blocking_queue)"
    by (simp add: linked_blocking_queue_Inr)
  have "map_option (\<lambda>(r, q). (r, lbq_empty q, map_option node_val (case ptr (front_end q) of None \<Rightarrow> None | Some a \<Rightarrow> heap q a)))
          (lbq_run nothrow_type ?cs (lbq_fresh 3)) = Some (Inr ?evs, Inr False, Some (Constructed 1))"
    by code_simp
  then obtain q where h2: "lbq_run nothrow_type ?cs (lbq_fresh 3) = Some (Inr ?evs, q)"
    and h3: "lbq_empty q = Inr False"
    and v: "map_option node_val (case ptr (front_end q) of None \<Rightarrow> None | Some a \<Rightarrow> heap q a) =
              Some (Constructed 1)"
    by (cases "lbq_run nothrow_type ?cs (lbq_fresh 3)") auto
  have m: "pop_moves nothrow_type (1::nat)" "try_pop_moves nothrow_type (1::nat)"
    by (simp_all add: pop_moves_def try_pop_moves_def nothrow_type_def)
  from C7_pop_recycles_node [OF h1 h2 h3, of nothrow_type] v h2 h3 m
  show ?thesis by fastforce
qed

text \<open>
  C8. Tickets and turns of the bounded queue. For a valid capacity \<open>c\<close> and every ticket
  \<open>t\<close>: the slot is \<open>t AND (c - 1)\<close>, which is \<open>t mod c\<close>; the write turn is \<open>2 * (t div c)\<close>,
  without overflow, and even; the read turn is \<open>2 * (t div c) + 1\<close>, without overflow, and
  odd. \<^verbatim>\<open>has_val\<close> is the oddness of the turn. In every state the queue reaches, no call
  has ended with an error (none has constructed a value in a slot whose value was alive,
  none has read or destroyed a value that was not there), and each slot holds a
  constructed value exactly when its turn is odd, and nothing otherwise.
\<close>

theorem C8_tickets_and_turns:
  assumes "array_blocking_queue p c = Some (Inr q0)" "valid_capacity c"
    and "run cs q0 = Some (r, q)"
  shows
    "(\<forall>(q' :: 'b array_blocking_queue) t. valid_capacity (capacity q') \<longrightarrow>
        get_idx q' t = t AND (capacity q' - 1) \<and>
        unat (get_idx q' t) = unat t mod unat (capacity q') \<and>
        unat (get_write_turn q' t) = 2 * (unat t div unat (capacity q')) \<and>
        even (get_write_turn q' t) \<and>
        unat (get_read_turn q' t) = 2 * (unat t div unat (capacity q')) + 1 \<and>
        odd (get_read_turn q' t)) \<and>
     (\<forall>s. has_val s \<longleftrightarrow> odd (turn s)) \<and>
     (\<exists>evs. r = Inr evs) \<and>
     list_all (\<lambda>s. (has_val s \<longleftrightarrow> (\<exists>v. val s = Constructed v)) \<and>
                   (\<not> has_val s \<longleftrightarrow> val s = Uninit)) (array q)"
proof (intro conjI)
  show "\<forall>(q' :: 'b array_blocking_queue) t. valid_capacity (capacity q') \<longrightarrow>
        get_idx q' t = t AND (capacity q' - 1) \<and>
        unat (get_idx q' t) = unat t mod unat (capacity q') \<and>
        unat (get_write_turn q' t) = 2 * (unat t div unat (capacity q')) \<and>
        even (get_write_turn q' t) \<and>
        unat (get_read_turn q' t) = 2 * (unat t div unat (capacity q')) + 1 \<and>
        odd (get_read_turn q' t)"
  proof (intro allI impI)
    fix q' :: "'b array_blocking_queue" and t
    assume v: "valid_capacity (capacity q')"
    note ge2 = valid_capacity_ge2 [OF v]
    have "even (get_write_turn q' t)" by (simp add: get_write_turn_def)
    moreover have "odd (get_read_turn q' t)" by (simp add: get_read_turn_def)
    ultimately show "get_idx q' t = t AND (capacity q' - 1) \<and>
        unat (get_idx q' t) = unat t mod unat (capacity q') \<and>
        unat (get_write_turn q' t) = 2 * (unat t div unat (capacity q')) \<and>
        even (get_write_turn q' t) \<and>
        unat (get_read_turn q' t) = 2 * (unat t div unat (capacity q')) + 1 \<and>
        odd (get_read_turn q' t)"
      using unat_get_idx [OF v] unat_get_write_turn [OF ge2] unat_get_read_turn [OF ge2]
      by (simp add: get_idx_def)
  qed
  show "\<forall>s :: 'c slot_t. has_val s \<longleftrightarrow> odd (turn s)" by (simp add: has_val_odd)
  from reachable_at [OF assms] obtain evs xs where r: "r = Inr evs"
    and inv: "abq_at q (length (popped evs)) xs"
    by blast
  from r show "\<exists>evs. r = Inr evs" by blast
  show "list_all (\<lambda>s. (has_val s \<longleftrightarrow> (\<exists>v. val s = Constructed v)) \<and>
                   (\<not> has_val s \<longleftrightarrow> val s = Uninit)) (array q)"
    unfolding list_all_iff using abq_at_slots [OF inv] by blast
qed

theorem C8_witness:
  "get_idx \<lparr>capacity = 4, array = [] :: nat slot_t list, head = 0, tail = 0\<rparr> 6 = 2 \<and>
   get_write_turn \<lparr>capacity = 4, array = [] :: nat slot_t list, head = 0, tail = 0\<rparr> 6 = 2 \<and>
   get_read_turn \<lparr>capacity = 4, array = [] :: nat slot_t list, head = 0, tail = 0\<rparr> 6 = 3 \<and>
   has_val \<lparr>turn = 3, val = Constructed (1::nat)\<rparr> \<and>
   (\<exists>q. run [Push 1, Push 2, Pop]
          \<lparr>capacity = 2, array = [\<lparr>turn = 0, val = Uninit :: nat storage\<rparr>, \<lparr>turn = 0, val = Uninit\<rparr>],
           head = 0, tail = 0\<rparr> = Some (Inr [Pushed 1, Pushed 2, Popped 1], q) \<and>
        list_all (\<lambda>s. (has_val s \<longleftrightarrow> (\<exists>v. val s = Constructed v)) \<and>
                      (\<not> has_val s \<longleftrightarrow> val s = Uninit)) (array q))"
proof -
  let ?fresh = "\<lparr>capacity = 2, array = [\<lparr>turn = 0, val = Uninit :: nat storage\<rparr>,
                  \<lparr>turn = 0, val = Uninit\<rparr>], head = 0, tail = 0\<rparr>"
  let ?state = "\<lparr>capacity = 2, array = [\<lparr>turn = 2, val = Uninit\<rparr>,
                  \<lparr>turn = 1, val = Constructed (2::nat)\<rparr>], head = 1, tail = 2\<rparr>"
  let ?four = "\<lparr>capacity = 4, array = [] :: nat slot_t list, head = 0, tail = 0\<rparr>"
  have h1: "array_blocking_queue True 2 = Some (Inr ?fresh)" by code_simp
  have h2: "valid_capacity 2" by code_simp
  have h4: "run [Push 1, Push 2, Pop] ?fresh = Some (Inr [Pushed 1, Pushed 2, Popped 1], ?state)"
    by code_simp
  note c8 = C8_tickets_and_turns [OF h1 h2 h4, where 'b = nat and 'c = nat]
  have v4: "valid_capacity (capacity ?four)" by code_simp
  from c8 v4 have "unat (get_idx ?four 6) = unat (6 :: size_t) mod unat (capacity ?four) \<and>
      unat (get_write_turn ?four 6) = 2 * (unat (6 :: size_t) div unat (capacity ?four)) \<and>
      unat (get_read_turn ?four 6) = 2 * (unat (6 :: size_t) div unat (capacity ?four)) + 1"
    by blast
  then have "unat (get_idx ?four 6) = 2 \<and> unat (get_write_turn ?four 6) = 2 \<and>
      unat (get_read_turn ?four 6) = 3"
    by simp
  then have f: "get_idx ?four 6 = 2 \<and> get_write_turn ?four 6 = 2 \<and> get_read_turn ?four 6 = 3"
    by (simp add: word_unat_eq_iff)
  from c8 have "has_val \<lparr>turn = 3, val = Constructed (1::nat)\<rparr> \<longleftrightarrow>
      odd (turn \<lparr>turn = 3, val = Constructed (1::nat)\<rparr>)"
    by blast
  then have hv: "has_val \<lparr>turn = 3, val = Constructed (1::nat)\<rparr>" by simp
  from c8 have "list_all (\<lambda>s. (has_val s \<longleftrightarrow> (\<exists>v. val s = Constructed v)) \<and>
                      (\<not> has_val s \<longleftrightarrow> val s = Uninit)) (array ?state)"
    by blast
  with h4 f hv show ?thesis by blast
qed

text \<open>
  C9. An exception of the element type's constructor in \<^verbatim>\<open>pop\<close> or \<^verbatim>\<open>try_pop\<close> does not
  always leave the queue as it was. Take the queue as constructed, after \<^verbatim>\<open>push(5)\<close>.
  With an element type whose copy constructor is \<^verbatim>\<open>noexcept\<close> and whose move constructor
  throws, \<^verbatim>\<open>pop(std::unique_lock<lock_t>)\<close> is \<^verbatim>\<open>noexcept\<close>, and \<^verbatim>\<open>pop\<close> and \<^verbatim>\<open>try_pop\<close>
  end in \<^verbatim>\<open>std::terminate\<close> at line 199, the lock of the front end held. With an element
  type whose move constructor throws when \<^verbatim>\<open>try_pop\<close> moves the popped value into its
  \<^verbatim>\<open>optional\<close> (line 296), or when \<^verbatim>\<open>pop\<close> returns its local (line 210), the call ends
  with the exception after the node was detached and given to the free list: the queue
  is empty and 5 has reached no one. Only an exception of line 199 in a \<^verbatim>\<open>pop\<close> that is
  not \<^verbatim>\<open>noexcept\<close> leaves the queue as it was, and 5 to be popped.
\<close>

theorem C9_throwing_move_terminates_or_loses_value:
  "lbq_run nothrow_type [LPush 5] (lbq_fresh 2) = Some (Inr [LPushed (5::nat)], queue_of_5) \<and>
   lbq_pop copy_noexcept_move_throws queue_of_5 =
     Some (Inl Terminate, queue_of_5\<lparr>front_end := \<lparr>lock = True, ptr = Some 0\<rparr>\<rparr>) \<and>
   lbq_try_pop copy_noexcept_move_throws queue_of_5 =
     Some (Inl Terminate, queue_of_5\<lparr>front_end := \<lparr>lock = True, ptr = Some 0\<rparr>\<rparr>) \<and>
   lbq_try_pop (throws_at Try_Pop_Assign) queue_of_5 =
     Some (Inl (Ctor_Throw Try_Pop_Assign), queue_of_5_popped) \<and>
   lbq_pop (throws_at Pop_Return) queue_of_5 =
     Some (Inl (Ctor_Throw Pop_Return), queue_of_5_popped) \<and>
   lbq_empty queue_of_5_popped = Inr True \<and>
   lbq_try_pop nothrow_type queue_of_5_popped = Some (Inr None, queue_of_5_popped) \<and>
   lbq_pop (throws_at Pop_Local) queue_of_5 = Some (Inl (Ctor_Throw Pop_Local), queue_of_5) \<and>
   lbq_try_pop (throws_at Pop_Local) queue_of_5 = Some (Inl (Ctor_Throw Pop_Local), queue_of_5) \<and>
   lbq_pop nothrow_type queue_of_5 = Some (Inr 5, queue_of_5_popped)"
proof -
  have sh: "lbq_shape queue_of_5 [5] [0] 1 []"
    by (simp add: lbq_shape_def queue_of_5_def)
  have sh': "lbq_shape queue_of_5_popped [] [] 1 [0]"
    by (simp add: lbq_shape_def queue_of_5_popped_def)
  have popped: "after_lbq_pop queue_of_5 = queue_of_5_popped"
    by (simp add: after_lbq_pop_def queue_of_5_def queue_of_5_popped_def fun_eq_iff)
  have locked: "queue_of_5\<lparr>front_end := (front_end queue_of_5)\<lparr>lock := True\<rparr>\<rparr> =
      queue_of_5\<lparr>front_end := \<lparr>lock = True, ptr = Some 0\<rparr>\<rparr>"
    by (simp add: queue_of_5_def)
  have 1: "lbq_run nothrow_type [LPush 5] (lbq_fresh 2) = Some (Inr [LPushed (5::nat)], queue_of_5)"
    by (simp add: lbq_push_def lbq_insert_def alloc_node_malloc construct_node_def deref_def
          spinlock_lock_free spinlock_unlock_def lbq_fresh_def queue_of_5_def Let_def fun_eq_iff)
  have 2: "lbq_pop copy_noexcept_move_throws queue_of_5 =
      Some (Inl Terminate, queue_of_5\<lparr>front_end := \<lparr>lock = True, ptr = Some 0\<rparr>\<rparr>)"
    unfolding locked [symmetric]
    by (simp add: lbq_pop_shape [OF sh] pop_gives_def pop_noexcept_def
          copy_noexcept_move_throws_def)
  have 3: "lbq_try_pop copy_noexcept_move_throws queue_of_5 =
      Some (Inl Terminate, queue_of_5\<lparr>front_end := \<lparr>lock = True, ptr = Some 0\<rparr>\<rparr>)"
    unfolding locked [symmetric]
    by (simp add: lbq_try_pop_shape [OF sh] try_pop_gives_def pop_gives_def pop_noexcept_def
          copy_noexcept_move_throws_def)
  have 4: "lbq_try_pop (throws_at Try_Pop_Assign) queue_of_5 =
      Some (Inl (Ctor_Throw Try_Pop_Assign), queue_of_5_popped)"
    by (simp add: lbq_try_pop_shape [OF sh] try_pop_gives_def pop_gives_def throw_from_def
          throws_at_def popped)
  have 5: "lbq_pop (throws_at Pop_Return) queue_of_5 =
      Some (Inl (Ctor_Throw Pop_Return), queue_of_5_popped)"
    by (simp add: lbq_pop_shape [OF sh] pop_gives_def throw_from_def pop_noexcept_def
          throws_at_def popped)
  have 6: "lbq_empty queue_of_5_popped = Inr True"
    by (simp add: lbq_empty_shape [OF sh'])
  have 7: "lbq_try_pop nothrow_type queue_of_5_popped = Some (Inr None, queue_of_5_popped)"
    by (simp add: lbq_try_pop_shape [OF sh'])
  have 8: "lbq_pop (throws_at Pop_Local) queue_of_5 = Some (Inl (Ctor_Throw Pop_Local), queue_of_5)"
    by (simp add: lbq_pop_shape [OF sh] pop_gives_def pop_noexcept_def throws_at_def)
  have 9: "lbq_try_pop (throws_at Pop_Local) queue_of_5 =
      Some (Inl (Ctor_Throw Pop_Local), queue_of_5)"
    by (simp add: lbq_try_pop_shape [OF sh] try_pop_gives_def pop_gives_def pop_noexcept_def
          throws_at_def)
  have 10: "lbq_pop nothrow_type queue_of_5 = Some (Inr 5, queue_of_5_popped)"
    by (simp add: lbq_pop_shape [OF sh] pop_gives_def nothrow_type_def popped)
  from 1 2 3 4 5 6 7 8 9 10 show ?thesis by (intro conjI)
qed

text \<open>
  C10. At every step of every run of \<^verbatim>\<open>push\<close>, \<^verbatim>\<open>pop\<close>, \<^verbatim>\<open>try_pop\<close> and \<^verbatim>\<open>empty\<close> on
  the unbounded queue as constructed (after every prefix of the calls), \<^verbatim>\<open>front_\<close> and
  \<^verbatim>\<open>back_\<close> are not null, and \<^verbatim>\<open>empty()\<close> reads its node and returns.
\<close>

theorem C10_front_back_never_null:
  assumes "linked_blocking_queue n = Some (Inr (), l0)"
    and "lbq_run T (cs1 @ cs2) l0 = Some (Inr evs, q')"
  shows "\<exists>evs1 q. lbq_run T cs1 l0 = Some (Inr evs1, q) \<and>
           ptr (front_end q) \<noteq> None \<and> ptr (back_end q) \<noteq> None \<and> (\<exists>b. lbq_empty q = Inr b)"
proof -
  from lbq_run_append [OF assms(2)] obtain evs1 q where
    run: "lbq_run T cs1 l0 = Some (Inr evs1, q)" by blast
  from lbq_reachable_inv [OF assms(1) run] obtain xs as b fs where sh: "lbq_shape q xs as b fs"
    unfolding lbq_inv_def by blast
  have "ptr (front_end q) \<noteq> None"
    using lbq_shape_front [OF sh] by (cases xs) auto
  moreover have "ptr (back_end q) \<noteq> None" using sh by (simp add: lbq_shape_def)
  moreover have "\<exists>b. lbq_empty q = Inr b" by (simp add: lbq_empty_shape [OF sh])
  ultimately show ?thesis using run by blast
qed

theorem C10_witness:
  "\<exists>evs1 q. lbq_run nothrow_type [LPush 1, LEmpty, LPop] (lbq_fresh 2) = Some (Inr evs1, q) \<and>
     ptr (front_end q) \<noteq> None \<and> ptr (back_end q) \<noteq> None \<and> (\<exists>b. lbq_empty q = Inr b) \<and>
     map_option fst (lbq_run nothrow_type [LPush (2::nat), LTry_Pop] q) =
       Some (Inr [LPushed 2, LPopped 2])"
proof -
  have h1: "linked_blocking_queue 2 = Some (Inr (), lbq_fresh 2 :: nat linked_blocking_queue)"
    by (simp add: linked_blocking_queue_Inr)
  let ?evs = "[LPushed (1::nat), LEmpty_Is False, LPopped 1, LPushed 2, LPopped 2]"
  have "map_option fst (lbq_run nothrow_type ([LPush 1, LEmpty, LPop] @ [LPush 2, LTry_Pop]) (lbq_fresh 2)) =
          Some (Inr ?evs)"
    by code_simp
  then obtain q' where h2:
    "lbq_run nothrow_type ([LPush 1, LEmpty, LPop] @ [LPush 2, LTry_Pop]) (lbq_fresh 2) = Some (Inr ?evs, q')"
    by (cases "lbq_run nothrow_type ([LPush (1::nat), LEmpty, LPop] @ [LPush 2, LTry_Pop]) (lbq_fresh 2)") auto
  from lbq_run_append [OF h2] obtain e1 e2 q1 where
    a: "lbq_run nothrow_type [LPush 1, LEmpty, LPop] (lbq_fresh 2) = Some (Inr e1, q1)"
       "lbq_run nothrow_type [LPush 2, LTry_Pop] q1 = Some (Inr e2, q')" "?evs = e1 @ e2"
    by blast
  have "map_option fst (lbq_run nothrow_type [LPush 1, LEmpty, LPop] (lbq_fresh 2)) =
          Some (Inr [LPushed (1::nat), LEmpty_Is False, LPopped 1])"
    by code_simp
  with a(1) have e1: "e1 = [LPushed 1, LEmpty_Is False, LPopped 1]" by simp
  with a(3) have e2: "e2 = [LPushed 2, LPopped 2]" by simp
  from C10_front_back_never_null [OF h1 h2] a e2
  show ?thesis by auto
qed

end
